theory Spec2Isabelle
  imports Main
begin

section \<open>JavaScript values and strings\<close>

text \<open>
  The TypeScript sources type wire messages, tool parameters and schemas as \<open>any\<close>.
  They are modelled by one datatype of JavaScript values: the JSON values and
  \<open>undefined\<close> (the value of an absent property or an omitted argument).
  Numbers are modelled as integers (request ids are counters; JSON fractions are not
  represented). Strings are \<open>char list\<close>; the letters whose case matters below are ASCII.
  An object lists each of its keys once.
\<close>

datatype jsval =
    Undefined
  | JNull
  | JBool bool
  | JNum int
  | JStr string
  | JArr "jsval list"
  | JObj "(string \<times> jsval) list"

text \<open>A raised value: an \<open>Error\<close> object with its message, or any other thrown value.\<close>

datatype thrown = Error string | NonError jsval

text \<open>JavaScript truthiness, as used by \<open>if (x)\<close>, \<open>!x\<close> and \<open>x || y\<close>.\<close>

fun truthy :: "jsval \<Rightarrow> bool" where
  "truthy Undefined = False"
| "truthy JNull = False"
| "truthy (JBool b) = b"
| "truthy (JNum n) = (n \<noteq> 0)"
| "truthy (JStr s) = (s \<noteq> [])"
| "truthy (JArr xs) = True"
| "truthy (JObj kvs) = True"

definition js_or :: "jsval \<Rightarrow> jsval \<Rightarrow> jsval" where
  "js_or x y = (if truthy x then x else y)"

definition quote :: "string \<Rightarrow> string" where
  "quote s = [CHR 0x27] @ s @ [CHR 0x27]"

text \<open>
  Property access \<open>v.k\<close> for the data property names the sources read (\<open>id\<close>,
  \<open>error\<close>, \<open>result\<close>, \<open>message\<close>, \<open>content\<close>, \<open>isError\<close>, \<open>examples\<close>,
  \<open>relatedTools\<close>, \<open>category\<close>): it throws a TypeError on \<open>undefined\<close> and
  \<open>null\<close>, looks the key up in an object and is \<open>undefined\<close> on every other value.
\<close>

fun get_prop :: "jsval \<Rightarrow> string \<Rightarrow> thrown + jsval" where
  "get_prop Undefined k =
     Inl (Error (''Cannot read properties of undefined (reading '' @ quote k @ '')''))"
| "get_prop JNull k =
     Inl (Error (''Cannot read properties of null (reading '' @ quote k @ '')''))"
| "get_prop (JObj kvs) k = Inr (case map_of kvs k of None \<Rightarrow> Undefined | Some v \<Rightarrow> v)"
| "get_prop v k = Inr Undefined"

text \<open>
  Decimal rendering of a number, as a template literal \<open>${n}\<close> produces it.
  \<open>digit\<close> is applied to numbers below 10 only.
\<close>

definition digit :: "nat \<Rightarrow> char" where
  "digit d = ''0123456789'' ! d"

fun show_nat :: "nat \<Rightarrow> string" where
  "show_nat n =
     (if n < 10 then [digit n] else show_nat (n div 10) @ [digit (n mod 10)])"

definition show_int :: "int \<Rightarrow> string" where
  "show_int i = (if i < 0 then CHR ''-'' # show_nat (nat (- i)) else show_nat (nat i))"

fun join :: "string \<Rightarrow> string list \<Rightarrow> string" where
  "join sep [] = []"
| "join sep [x] = x"
| "join sep (x # y # ys) = x @ sep @ join sep (y # ys)"

text \<open>
  \<open>String(v)\<close>, the conversion \<open>new Error(v)\<close> applies to its message: an array joins
  its elements with commas, rendering \<open>null\<close> and \<open>undefined\<close> elements as empty.
\<close>

fun to_string :: "jsval \<Rightarrow> string" where
  "to_string Undefined = ''undefined''"
| "to_string JNull = ''null''"
| "to_string (JBool b) = (if b then ''true'' else ''false'')"
| "to_string (JNum n) = show_int n"
| "to_string (JStr s) = s"
| "to_string (JArr xs) =
     join '','' (map (\<lambda>x. if x = Undefined \<or> x = JNull then [] else to_string x) xs)"
| "to_string (JObj kvs) = ''[object Object]''"

text \<open>\<open>s.toLowerCase()\<close> on ASCII letters; other characters are left as they are.\<close>

definition lower_char :: "char \<Rightarrow> char" where
  "lower_char c =
     (case map_of (zip ''ABCDEFGHIJKLMNOPQRSTUVWXYZ'' ''abcdefghijklmnopqrstuvwxyz'') c of
        None \<Rightarrow> c
      | Some l \<Rightarrow> l)"

definition toLowerCase :: "string \<Rightarrow> string" where
  "toLowerCase s = map lower_char s"

text \<open>\<open>s.includes(t)\<close>: \<open>t\<close> occurs in \<open>s\<close> as a contiguous substring.\<close>

fun starts_with :: "string \<Rightarrow> string \<Rightarrow> bool" where
  "starts_with s [] = True"
| "starts_with [] (c # t) = False"
| "starts_with (d # s) (c # t) = (d = c \<and> starts_with s t)"

fun js_includes :: "string \<Rightarrow> string \<Rightarrow> bool" where
  "js_includes [] t = (t = [])"
| "js_includes (c # s) t = (starts_with (c # s) t \<or> js_includes s t)"

text \<open>
  \<open>s.split('\n')\<close>: the segments between line feeds; a string with \<open>n\<close> line feeds
  has \<open>n + 1\<close> segments, the last one empty when the string ends in a line feed.
\<close>

definition LF :: char where
  "LF = CHR 0x0A"

fun split_lf :: "string \<Rightarrow> string list" where
  "split_lf [] = [[]]"
| "split_lf (c # cs) =
     (if c = LF then [] # split_lf cs
      else (case split_lf cs of [] \<Rightarrow> [[c]] | l # ls \<Rightarrow> (c # l) # ls))"

text \<open>
  \<open>s.trim()\<close> removes white space and line terminators from both ends: tab, line
  feed, vertical tab, form feed, carriage return, space and no-break space.
\<close>

definition is_space :: "char \<Rightarrow> bool" where
  "is_space c = ((of_char c :: nat) \<in> {9, 10, 11, 12, 13, 32, 160})"

definition trim :: "string \<Rightarrow> string" where
  "trim s = rev (dropWhile is_space (rev (dropWhile is_space s)))"

section \<open>The transport client (class MCPClient)\<close>

text \<open>
  A promise is identified by a handle, the number of promises created before it. A
  call of a promise's \<open>resolve\<close> or \<open>reject\<close> function is recorded in
  \<open>settlements\<close>, in order; a promise is settled by the first call recorded for its
  handle. Every rejection of the client passes a \<open>new Error(message)\<close>, so a
  rejection carries the message.
\<close>

datatype outcome = Resolved jsval | Rejected string

record child =
  stdin :: bool
  stdout :: bool

record rpc_request =
  req_id :: nat
  req_method :: string
  req_params :: jsval

text \<open>
  The fields of the class (\<open>process\<close>, \<open>messageId\<close>, \<open>pendingRequests\<close>,
  \<open>connected\<close>), and its effects made explicit: the requests written to the child's
  standard input, the armed timers (deadline, request id, promise), the clock in
  milliseconds, the promises created and the calls that settled them, the reactions
  \<open>connect()\<close> attached to its handshake request (request promise to connect
  promise), the connect promises captured by the registered \<open>error\<close> listeners,
  and the lines reported by \<open>console.error\<close> as unparsable.
\<close>

record client =
  process :: "child option"
  messageId :: nat
  pendingRequests :: "nat \<rightharpoonup> nat"
  connected :: bool
  written :: "rpc_request list"
  timers :: "(nat \<times> nat \<times> nat) list"
  clock :: nat
  promises :: nat
  settlements :: "(nat \<times> outcome) list"
  reactions :: "nat \<rightharpoonup> nat"
  listeners :: "nat list"
  reported :: "string list"

definition new_client :: client where
  "new_client =
     \<lparr>process = None, messageId = 0, pendingRequests = Map.empty, connected = False,
      written = [], timers = [], clock = 0, promises = 0, settlements = [],
      reactions = Map.empty, listeners = [], reported = []\<rparr>"

definition new_promise :: "client \<Rightarrow> nat \<times> client" where
  "new_promise s = (promises s, s\<lparr>promises := promises s + 1\<rparr>)"

text \<open>
  The reaction \<open>connect()\<close> chains on its handshake request,
  \<open>.then(() => { this.connected = true; resolve(); }).catch(reject)\<close>, for the
  connect promise \<open>q\<close>: a resolution marks the client connected and resolves \<open>q\<close>,
  a rejection rejects \<open>q\<close> with the same error.
\<close>

definition react :: "nat \<Rightarrow> outcome \<Rightarrow> client \<Rightarrow> client" where
  "react q out s =
     (case out of
        Resolved v \<Rightarrow>
          s\<lparr>connected := True, settlements := settlements s @ [(q, Resolved Undefined)]\<rparr>
      | Rejected e \<Rightarrow> s\<lparr>settlements := settlements s @ [(q, Rejected e)]\<rparr>)"

text \<open>
  Settling promise \<open>p\<close> records the call and runs the reaction attached to \<open>p\<close>, if
  there is one. Attaching a reaction to a promise that is already settled runs it with
  the promise's outcome. (JavaScript runs a reaction once the running listener has
  returned; the reaction here reads nothing a listener writes after settling, so only its
  place in the record of calls differs, after the calls of other promises.)
\<close>

definition settle :: "nat \<Rightarrow> outcome \<Rightarrow> client \<Rightarrow> client" where
  "settle p out s =
     (let s1 = s\<lparr>settlements := settlements s @ [(p, out)]\<rparr> in
      case reactions s1 p of
        None \<Rightarrow> s1
      | Some q \<Rightarrow> react q out (s1\<lparr>reactions := (reactions s1)(p := None)\<rparr>))"

definition attach :: "nat \<Rightarrow> nat \<Rightarrow> client \<Rightarrow> client" where
  "attach p q s =
     (case map_of (settlements s) p of
        Some out \<Rightarrow> react q out s
      | None \<Rightarrow> s\<lparr>reactions := (reactions s)(p \<mapsto> q)\<rparr>)"

text \<open>
  \<open>getNextId()\<close> is \<open>++this.messageId\<close>. The counter is a JavaScript number, which
  counts exactly up to \<open>2^53\<close>; it is modelled as a natural number.
\<close>

definition getNextId :: "client \<Rightarrow> nat \<times> client" where
  "getNextId s = (messageId s + 1, s\<lparr>messageId := messageId s + 1\<rparr>)"

definition has_stdin :: "client \<Rightarrow> bool" where
  "has_stdin s = (case process s of None \<Rightarrow> False | Some c \<Rightarrow> stdin c)"

definition timeout_ms :: nat where
  "timeout_ms = 30000"

text \<open>
  \<open>sendRequest(request)\<close> returns a new promise. Without a child process it rejects
  at once; otherwise it registers the promise under the request's id, writes the request
  and arms a timer \<open>timeout_ms\<close> from now. Serialising the request and writing it to the
  pipe are taken to succeed.
\<close>

definition sendRequest :: "rpc_request \<Rightarrow> client \<Rightarrow> nat \<times> client" where
  "sendRequest request s =
     (let (p, s1) = new_promise s in
      if \<not> has_stdin s1 then (p, settle p (Rejected ''MCP server not connected'') s1)
      else
        (p, s1\<lparr>pendingRequests := (pendingRequests s1)(req_id request \<mapsto> p),
               written := written s1 @ [request],
               timers := timers s1 @ [(clock s1 + timeout_ms, req_id request, p)]\<rparr>))"

text \<open>
  The timer callback of the request with id \<open>i\<close> and promise \<open>p\<close>: if the id is
  still pending, the entry is deleted and \<open>p\<close> is rejected.
\<close>

definition on_timeout :: "nat \<times> nat \<Rightarrow> client \<Rightarrow> client" where
  "on_timeout ip s =
     (case ip of (i, p) \<Rightarrow>
        if pendingRequests s i \<noteq> None then
          settle p (Rejected (''Request '' @ show_nat i @ '' timed out''))
            (s\<lparr>pendingRequests := (pendingRequests s)(i := None)\<rparr>)
        else s)"

text \<open>
  Time passes by \<open>d\<close> milliseconds: the timers whose deadline has been reached run,
  in the order they were armed (all have the same delay), and are discarded.
\<close>

definition due :: "nat \<Rightarrow> nat \<times> nat \<times> nat \<Rightarrow> bool" where
  "due t tm = (fst tm \<le> t)"

definition advance :: "nat \<Rightarrow> client \<Rightarrow> client" where
  "advance d s =
     (let t = clock s + d in
      fold on_timeout (map snd (filter (due t) (timers s)))
        (s\<lparr>clock := t, timers := filter (\<lambda>tm. \<not> due t tm) (timers s)\<rparr>))"

text \<open>
  The key under which \<open>pendingRequests.has(message.id)\<close> looks: the map's keys are
  the numbers \<open>getNextId\<close> produced, so only a number can match one.
\<close>

fun as_key :: "jsval \<Rightarrow> nat option" where
  "as_key (JNum n) = (if 0 \<le> n then Some (nat n) else None)"
| "as_key v = None"

text \<open>The outcome a response message settles its request with.\<close>

definition response_outcome :: "jsval \<Rightarrow> thrown + outcome" where
  "response_outcome message =
     (case get_prop message ''error'' of
        Inl e \<Rightarrow> Inl e
      | Inr err \<Rightarrow>
          if truthy err then
            (case get_prop err ''message'' of
               Inl e \<Rightarrow> Inl e
             | Inr m \<Rightarrow> Inr (Rejected (to_string (js_or m (JStr ''Unknown error'')))))
          else
            (case get_prop message ''result'' of
               Inl e \<Rightarrow> Inl e
             | Inr r \<Rightarrow> Inr (Resolved r)))"

text \<open>
  \<open>handleMessage(message)\<close>: a message whose id is truthy and pending removes the
  entry and settles its promise; any other message changes nothing. Reading a property
  of \<open>null\<close> throws. The sources delete the entry before they read \<open>message.error\<close>;
  a message whose id is a pending key is an object, on which these reads do not throw, so
  no entry is deleted without its promise being settled.
\<close>

definition handleMessage :: "jsval \<Rightarrow> client \<Rightarrow> thrown + client" where
  "handleMessage message s =
     (case get_prop message ''id'' of
        Inl e \<Rightarrow> Inl e
      | Inr mid \<Rightarrow>
          (case (if truthy mid then as_key mid else None) of
             None \<Rightarrow> Inr s
           | Some i \<Rightarrow>
               (case pendingRequests s i of
                  None \<Rightarrow> Inr s
                | Some p \<Rightarrow>
                    (case response_outcome message of
                       Inl e \<Rightarrow> Inl e
                     | Inr out \<Rightarrow>
                         Inr (settle p out
                               (s\<lparr>pendingRequests := (pendingRequests s)(i := None)\<rparr>))))))"

text \<open>
  The \<open>data\<close> listener of the child's standard output. \<open>chunk_lines\<close> is its
  \<open>lines\<close>: the segments of this chunk alone whose trimmed text is not empty. Each
  line is parsed and handled inside one \<open>try\<close>; a line that \<open>JSON.parse\<close> rejects
  (\<open>parse\<close> gives \<open>None\<close>), or whose handling throws, is reported and skipped.
  \<open>JSON.parse\<close> is a parameter.
\<close>

definition chunk_lines :: "string \<Rightarrow> string list" where
  "chunk_lines chunk = filter (\<lambda>line. trim line \<noteq> []) (split_lf chunk)"

definition on_line :: "(string \<Rightarrow> jsval option) \<Rightarrow> string \<Rightarrow> client \<Rightarrow> client" where
  "on_line parse line s =
     (case parse line of
        None \<Rightarrow> s\<lparr>reported := reported s @ [line]\<rparr>
      | Some message \<Rightarrow>
          (case handleMessage message s of
             Inl e \<Rightarrow> s\<lparr>reported := reported s @ [line]\<rparr>
           | Inr s' \<Rightarrow> s'))"

definition on_data :: "(string \<Rightarrow> jsval option) \<Rightarrow> string \<Rightarrow> client \<Rightarrow> client" where
  "on_data parse chunk s = fold (on_line parse) (chunk_lines chunk) s"

text \<open>
  The \<open>error\<close> listener registered by the \<open>connect()\<close> call whose promise is \<open>q\<close>,
  the \<open>exit\<close> listener, and \<open>disconnect()\<close>.
\<close>

definition on_error :: "nat \<Rightarrow> string \<Rightarrow> client \<Rightarrow> client" where
  "on_error q err s = (if \<not> connected s then settle q (Rejected err) s else s)"

definition on_exit :: "client \<Rightarrow> client" where
  "on_exit s = s\<lparr>connected := False\<rparr>"

definition disconnect :: "client \<Rightarrow> client" where
  "disconnect s = s\<lparr>process := None, connected := False\<rparr>"

definition initialize_params :: jsval where
  "initialize_params =
     JObj [(''protocolVersion'', JStr ''2024-11-05''),
           (''capabilities'', JObj [(''tools'', JObj [])]),
           (''clientInfo'',
            JObj [(''name'', JStr ''mcp-framework''), (''version'', JStr ''0.1.0'')])]"

text \<open>
  \<open>connect()\<close> with the child that \<open>spawn\<close> returned: it returns the connect
  promise, rejected at once when a pipe is missing; otherwise the listeners are
  registered, the handshake request is sent and the reaction on its promise is attached.
\<close>

definition connect :: "child \<Rightarrow> client \<Rightarrow> nat \<times> client" where
  "connect c s =
     (let (q, s1) = new_promise s;
          s2 = s1\<lparr>process := Some c\<rparr>
      in if \<not> stdin c \<or> \<not> stdout c then
           (q, settle q (Rejected ''Failed to create MCP server process'') s2)
         else
           (let s2' = s2\<lparr>listeners := listeners s2 @ [q]\<rparr>;
                (i, s3) = getNextId s2';
                (p, s4) = sendRequest
                   \<lparr>req_id = i, req_method = ''initialize'', req_params = initialize_params\<rparr> s3
            in (q, attach p q s4)))"

text \<open>
  \<open>callTool(name, arguments_)\<close> and \<open>listTools()\<close> send a request with the next
  id; what they return once the request's promise is settled is computed from its
  outcome (\<open>callTool_return\<close>).
\<close>

definition callTool :: "string \<Rightarrow> jsval \<Rightarrow> client \<Rightarrow> nat \<times> client" where
  "callTool name arguments s =
     (let (i, s1) = getNextId s in
      sendRequest
        \<lparr>req_id = i, req_method = ''tools/call'',
         req_params = JObj [(''name'', JStr name), (''arguments'', arguments)]\<rparr> s1)"

definition listTools :: "client \<Rightarrow> nat \<times> client" where
  "listTools s =
     (let (i, s1) = getNextId s in
      sendRequest \<lparr>req_id = i, req_method = ''tools/list'', req_params = Undefined\<rparr> s1)"

record MCPToolResult =
  content :: jsval
  isError :: jsval

definition callTool_return :: "outcome \<Rightarrow> thrown + MCPToolResult" where
  "callTool_return out =
     (case out of
        Rejected e \<Rightarrow> Inl (Error e)
      | Resolved response \<Rightarrow>
          (case get_prop response ''content'' of
             Inl e \<Rightarrow> Inl e
           | Inr c \<Rightarrow>
               (case get_prop response ''isError'' of
                  Inl e \<Rightarrow> Inl e
                | Inr ie \<Rightarrow>
                    Inr \<lparr>content = js_or c (JArr []), isError = js_or ie (JBool False)\<rparr>)))"

text \<open>
  Delivery of a sequence of parsed messages, each handled inside the listener's
  \<open>try\<close>: a message whose handling throws changes nothing.
\<close>

definition on_message :: "jsval \<Rightarrow> client \<Rightarrow> client" where
  "on_message message s = (case handleMessage message s of Inl e \<Rightarrow> s | Inr s' \<Rightarrow> s')"

definition deliver :: "jsval list \<Rightarrow> client \<Rightarrow> client" where
  "deliver messages s = fold on_message messages s"

text \<open>Issuing a sequence of \<open>callTool\<close> invocations; the promises are returned in order.\<close>

fun issue :: "(string \<times> jsval) list \<Rightarrow> client \<Rightarrow> nat list \<times> client" where
  "issue [] s = ([], s)"
| "issue ((name, arguments) # calls) s =
     (let (p, s1) = callTool name arguments s;
          (ps, s2) = issue calls s1
      in (p # ps, s2))"

text \<open>The calls recorded for promise \<open>p\<close> after the first \<open>n\<close> recorded calls.\<close>

definition settled_since :: "nat \<Rightarrow> nat \<Rightarrow> client \<Rightarrow> outcome list" where
  "settled_since n p s = map snd (filter (\<lambda>c. fst c = p) (drop n (settlements s)))"

text \<open>
  The id under which \<open>handleMessage\<close> looks a message up: the numeric value of a
  truthy \<open>id\<close> property, if the message has one.
\<close>

definition message_id :: "jsval \<Rightarrow> nat option" where
  "message_id message =
     (case get_prop message ''id'' of
        Inl e \<Rightarrow> None
      | Inr mid \<Rightarrow> if truthy mid then as_key mid else None)"

text \<open>
  The events of a client's life, and the client after a sequence of them: a chunk read
  from the child's standard output, time passing (the due timers run), the calls of the
  public methods, and the child's \<open>exit\<close> and \<open>error\<close> events (an \<open>error\<close>
  event runs the listener that captured connect promise \<open>q\<close>, if it is registered).
\<close>

datatype event =
    Data string
  | Elapse nat
  | Invoke string jsval
  | ListTools
  | Spawn child
  | ChildExit
  | ChildError nat string
  | Disconnect

fun step :: "(string \<Rightarrow> jsval option) \<Rightarrow> event \<Rightarrow> client \<Rightarrow> client" where
  "step parse (Data chunk) s = on_data parse chunk s"
| "step parse (Elapse d) s = advance d s"
| "step parse (Invoke name arguments) s = snd (callTool name arguments s)"
| "step parse ListTools s = snd (listTools s)"
| "step parse (Spawn c) s = snd (connect c s)"
| "step parse ChildExit s = on_exit s"
| "step parse (ChildError q err) s = (if q \<in> set (listeners s) then on_error q err s else s)"
| "step parse Disconnect s = disconnect s"

definition run :: "(string \<Rightarrow> jsval option) \<Rightarrow> event list \<Rightarrow> client \<Rightarrow> client" where
  "run parse es s = fold (step parse) es s"

text \<open>The time that passes during a sequence of events.\<close>

fun elapsed :: "event list \<Rightarrow> nat" where
  "elapsed [] = 0"
| "elapsed (Elapse d # es) = d + elapsed es"
| "elapsed (e # es) = elapsed es"

text \<open>An event that carries a message with id \<open>i\<close>: a chunk one of whose lines parses to one.\<close>

fun responds :: "(string \<Rightarrow> jsval option) \<Rightarrow> nat \<Rightarrow> event \<Rightarrow> bool" where
  "responds parse i (Data chunk) =
     list_ex (\<lambda>line. case parse line of None \<Rightarrow> False | Some m \<Rightarrow> message_id m = Some i)
       (chunk_lines chunk)"
| "responds parse i e = False"

text \<open>
  The handles and ids a client holds are ones it has issued: every pending or timed
  request id is at most \<open>messageId\<close>, every promise it refers to was created, and
  the armed timers are not yet due. Every state a client reaches from \<open>new_client\<close>
  is of this kind (\<open>wf_client_run\<close> below).
\<close>

definition wf_client :: "client \<Rightarrow> bool" where
  "wf_client s =
     ((\<forall>j p. pendingRequests s j = Some p \<longrightarrow> j \<le> messageId s \<and> p < promises s) \<and>
      (\<forall>tm \<in> set (timers s).
         clock s < fst tm \<and> fst (snd tm) \<le> messageId s \<and> snd (snd tm) < promises s) \<and>
      (\<forall>p q. reactions s p = Some q \<longrightarrow> q < promises s) \<and>
      (\<forall>q \<in> set (listeners s). q < promises s))"

text \<open>
  A child with both pipes, and the success and error responses of the wire protocol
  (\<open>{jsonrpc: "2.0", id, result}\<close> and \<open>{jsonrpc: "2.0", id, error: {code, message}}\<close>).
\<close>

definition pipes :: child where
  "pipes = \<lparr>stdin = True, stdout = True\<rparr>"

definition success_response :: "nat \<Rightarrow> jsval \<Rightarrow> jsval" where
  "success_response i r = JObj [(''jsonrpc'', JStr ''2.0''), (''id'', JNum (int i)), (''result'', r)]"

definition error_response :: "nat \<Rightarrow> int \<Rightarrow> string \<Rightarrow> jsval" where
  "error_response i code msg =
     JObj [(''jsonrpc'', JStr ''2.0''), (''id'', JNum (int i)),
           (''error'', JObj [(''code'', JNum code), (''message'', JStr msg)])]"

section \<open>The tool bridge (class ModelBridge)\<close>

record MCPTool =
  name :: string
  description :: string
  inputSchema :: jsval

record ToolUsageInfo = MCPTool +
  examples :: jsval
  relatedTools :: jsval
  category :: jsval

record ToolDiscoveryResult =
  tools :: "MCPTool list"
  totalCount :: nat
  categories :: "string list"

record ToolExecutionRequest =
  toolName :: string
  parameters :: jsval
  requestContext :: "string option"
  userIntent :: "string option"

record ToolExecutionResult =
  success :: bool
  result :: "MCPToolResult option"
  error :: "string option"
  suggestions :: "string list"

datatype feedback = Positive | Negative | Neutral

record TrainingData =
  td_userIntent :: string
  toolCall :: ToolExecutionRequest
  td_result :: ToolExecutionResult
  feedback :: feedback
  timestamp :: nat

text \<open>
  What the bridge takes from outside: \<open>JSON.parse\<close> (\<open>None\<close> when it throws),
  \<open>JSON.stringify(v)\<close> and \<open>JSON.stringify(v, null, 2)\<close> (\<open>None\<close> when they return
  \<open>undefined\<close>), and the model provider: \<open>generateResponse W k prompt\<close> is what the
  provider returns or throws when it is called with \<open>prompt\<close> after \<open>k\<close> earlier calls.
\<close>

record world =
  json_parse :: "string \<Rightarrow> jsval option"
  json_stringify :: "jsval \<Rightarrow> string option"
  json_pretty :: "jsval \<Rightarrow> string option"
  generateResponse :: "nat \<Rightarrow> string \<Rightarrow> thrown + string"

text \<open>
  The fields of the class (\<open>trainingData\<close>, \<open>toolCache\<close>, \<open>usageExamples\<close>). The
  tool cache is a JavaScript \<open>Map\<close> that is iterated, so it is a list of entries with
  distinct keys in insertion order. The effects on the collaborators are recorded: the
  prompts passed to the model provider and the \<open>callTool\<close> invocations made on the
  client, in order.
\<close>

record bridge =
  trainingData :: "TrainingData list"
  toolCache :: "(string \<times> MCPTool) list"
  usageExamples :: "string \<rightharpoonup> ToolUsageInfo"
  prompts :: "string list"
  toolCalls :: "(string \<times> jsval) list"

definition new_bridge :: bridge where
  "new_bridge =
     \<lparr>trainingData = [], toolCache = [], usageExamples = Map.empty, prompts = [],
      toolCalls = []\<rparr>"

text \<open>\<open>Map.prototype.set\<close>: an existing key keeps its place and takes the new value.\<close>

fun map_set :: "string \<Rightarrow> 'v \<Rightarrow> (string \<times> 'v) list \<Rightarrow> (string \<times> 'v) list" where
  "map_set k v [] = [(k, v)]"
| "map_set k v ((k', v') # m) = (if k' = k then (k, v) # m else (k', v') # map_set k v m)"

text \<open>A template literal, line by line, and the text that \<open>${v}\<close> stands for.\<close>

definition template :: "string list \<Rightarrow> string" where
  "template ls = join [LF] ls"

definition interpolate :: "string option \<Rightarrow> string" where
  "interpolate v = (case v of None \<Rightarrow> ''undefined'' | Some t \<Rightarrow> t)"

definition ask :: "world \<Rightarrow> string \<Rightarrow> bridge \<Rightarrow> (thrown + string) \<times> bridge" where
  "ask W prompt b =
     (generateResponse W (length (prompts b)) prompt, b\<lparr>prompts := prompts b @ [prompt]\<rparr>)"

definition usage_prompt :: "world \<Rightarrow> MCPTool \<Rightarrow> string" where
  "usage_prompt W tool =
     template
       [[],
        ''    Generate comprehensive usage information for this MCP tool:'',
        ''    '',
        ''    Tool Name: '' @ name tool,
        ''    Description: '' @ description tool,
        ''    Input Schema: '' @ interpolate (json_pretty W (inputSchema tool)),
        ''    '',
        ''    Please provide:'',
        ''    1. Detailed usage examples with realistic inputs and expected outputs'',
        ''    2. Common use cases and scenarios'',
        ''    3. Related tools that work well together'',
        ''    4. Best practices and tips'',
        ''    '',
        ''    Format as JSON with examples array, relatedTools array, and category.'',
        ''    '']"

definition fallback_usage :: "MCPTool \<Rightarrow> ToolUsageInfo" where
  "fallback_usage tool =
     \<lparr>name = name tool, description = description tool, inputSchema = inputSchema tool,
      examples = JArr [], relatedTools = JArr [], category = JStr ''Utility''\<rparr>"

text \<open>The \<open>try\<close> block of \<open>generateToolUsageInfo\<close> and its \<open>catch\<close>.\<close>

definition usage_of_response :: "world \<Rightarrow> MCPTool \<Rightarrow> string \<Rightarrow> ToolUsageInfo" where
  "usage_of_response W tool response =
     (case json_parse W response of
        None \<Rightarrow> fallback_usage tool
      | Some parsed \<Rightarrow>
          (case get_prop parsed ''examples'' of
             Inl e \<Rightarrow> fallback_usage tool
           | Inr ex \<Rightarrow>
               (case get_prop parsed ''relatedTools'' of
                  Inl e \<Rightarrow> fallback_usage tool
                | Inr rel \<Rightarrow>
                    (case get_prop parsed ''category'' of
                       Inl e \<Rightarrow> fallback_usage tool
                     | Inr cat \<Rightarrow>
                         \<lparr>name = name tool, description = description tool,
                          inputSchema = inputSchema tool,
                          examples = js_or ex (JArr []),
                          relatedTools = js_or rel (JArr []),
                          category = js_or cat (JStr ''Utility'')\<rparr>))))"

text \<open>
  \<open>generateToolUsageInfo(tool)\<close>: the provider is awaited outside the \<open>try\<close>, so
  what it throws is thrown on.
\<close>

definition generateToolUsageInfo ::
  "world \<Rightarrow> MCPTool \<Rightarrow> bridge \<Rightarrow> (thrown + ToolUsageInfo) \<times> bridge" where
  "generateToolUsageInfo W tool b =
     (case ask W (usage_prompt W tool) b of
        (Inl e, b1) \<Rightarrow> (Inl e, b1)
      | (Inr response, b1) \<Rightarrow> (Inr (usage_of_response W tool response), b1))"

definition getToolUsage ::
  "world \<Rightarrow> string \<Rightarrow> bridge \<Rightarrow> (thrown + ToolUsageInfo) \<times> bridge" where
  "getToolUsage W tn b =
     (case usageExamples b tn of
        Some cachedUsage \<Rightarrow> (Inr cachedUsage, b)
      | None \<Rightarrow>
          (case map_of (toolCache b) tn of
             None \<Rightarrow> (Inl (Error (''Tool '' @ quote tn @ '' not found'')), b)
           | Some tool \<Rightarrow>
               (case generateToolUsageInfo W tool b of
                  (Inl e, b1) \<Rightarrow> (Inl e, b1)
                | (Inr usageInfo, b1) \<Rightarrow>
                    (Inr usageInfo,
                     b1\<lparr>usageExamples := (usageExamples b1)(tn \<mapsto> usageInfo)\<rparr>))))"

text \<open>
  \<open>cacheAvailableTools()\<close>. \<open>listed\<close> is what awaiting \<open>mcpClient.listTools()\<close>
  gives this time: the tools the child reported, or what the call threw (then the cache
  is not touched). A method without a result returns what it threw, if anything.
\<close>

definition cacheAvailableTools ::
  "thrown + MCPTool list \<Rightarrow> bridge \<Rightarrow> thrown option \<times> bridge" where
  "cacheAvailableTools listed b =
     (case listed of
        Inl e \<Rightarrow> (Some e, b)
      | Inr ts \<Rightarrow>
          (None, b\<lparr>toolCache := fold (\<lambda>tool m. map_set (name tool) tool m) ts []\<rparr>))"

fun generateToolUsageExamples_loop ::
  "world \<Rightarrow> (string \<times> MCPTool) list \<Rightarrow> bridge \<Rightarrow> thrown option \<times> bridge" where
  "generateToolUsageExamples_loop W [] b = (None, b)"
| "generateToolUsageExamples_loop W ((tn, tool) # rest) b =
     (if usageExamples b tn \<noteq> None then generateToolUsageExamples_loop W rest b
      else
        (case generateToolUsageInfo W tool b of
           (Inl e, b1) \<Rightarrow> (Some e, b1)
         | (Inr usageInfo, b1) \<Rightarrow>
             generateToolUsageExamples_loop W rest
               (b1\<lparr>usageExamples := (usageExamples b1)(tn \<mapsto> usageInfo)\<rparr>)))"

definition generateToolUsageExamples :: "world \<Rightarrow> bridge \<Rightarrow> thrown option \<times> bridge" where
  "generateToolUsageExamples W b = generateToolUsageExamples_loop W (toolCache b) b"

text \<open>
  \<open>initialize()\<close>; \<open>connecting\<close> is what awaiting \<open>mcpClient.connect()\<close> threw, if
  anything.
\<close>

definition initialize ::
  "world \<Rightarrow> thrown option \<Rightarrow> thrown + MCPTool list \<Rightarrow> bridge \<Rightarrow> thrown option \<times> bridge" where
  "initialize W connecting listed b =
     (case connecting of
        Some e \<Rightarrow> (Some e, b)
      | None \<Rightarrow>
          (case cacheAvailableTools listed b of
             (Some e, b1) \<Rightarrow> (Some e, b1)
           | (None, b1) \<Rightarrow> generateToolUsageExamples W b1))"

text \<open>
  The body of the loop of \<open>categorizeTools\<close>, the category one tool contributes, and
  the loop, which collects the categories in a \<open>Set\<close>.
\<close>

definition tool_category :: "MCPTool \<Rightarrow> string" where
  "tool_category tool =
     (let n = toLowerCase (name tool); desc = toLowerCase (description tool) in
      if js_includes n ''file'' \<or> js_includes desc ''file'' then ''File Operations''
      else if js_includes n ''git'' \<or> js_includes desc ''git'' then ''Version Control''
      else if js_includes n ''search'' \<or> js_includes desc ''search'' then ''Search''
      else if js_includes n ''fetch'' \<or> js_includes n ''http'' \<or> js_includes desc ''web''
        then ''Network''
      else if js_includes n ''memory'' \<or> js_includes desc ''memory'' then ''Data Storage''
      else ''Utility'')"

definition set_add :: "string \<Rightarrow> string list \<Rightarrow> string list" where
  "set_add c cs = (if c \<in> set cs then cs else cs @ [c])"

definition categorizeTools :: "MCPTool list \<Rightarrow> string list" where
  "categorizeTools ts = fold (\<lambda>tool cs. set_add (tool_category tool) cs) ts []"

definition discoverTools ::
  "thrown + MCPTool list \<Rightarrow> bridge \<Rightarrow> (thrown + ToolDiscoveryResult) \<times> bridge" where
  "discoverTools listed b =
     (case (if toolCache b = [] then cacheAvailableTools listed b else (None, b)) of
        (Some e, b1) \<Rightarrow> (Inl e, b1)
      | (None, b1) \<Rightarrow>
          (let ts = map snd (toolCache b1) in
           (Inr \<lparr>tools = ts, totalCount = length ts, categories = categorizeTools ts\<rparr>, b1)))"

text \<open>
  \<open>trainOnInteraction\<close>; \<open>userFeedback\<close> is \<open>None\<close> when the argument is omitted
  and the parameter takes its default, \<open>now\<close> is the time of the call.
\<close>

definition trainOnInteraction ::
  "string \<Rightarrow> ToolExecutionRequest \<Rightarrow> ToolExecutionResult \<Rightarrow> feedback option \<Rightarrow> nat \<Rightarrow>
   bridge \<Rightarrow> bridge" where
  "trainOnInteraction intent call res userFeedback now b =
     (let trainingEntry =
            \<lparr>td_userIntent = intent, toolCall = call, td_result = res,
             feedback = (case userFeedback of None \<Rightarrow> Neutral | Some f \<Rightarrow> f),
             timestamp = now\<rparr>;
          pushed = trainingData b @ [trainingEntry]
      in b\<lparr>trainingData :=
             (if length pushed > 1000 then drop (length pushed - 1000) pushed else pushed)\<rparr>)"

text \<open>
  The history records \<open>optimizeToolRequest\<close> selects:
  \<open>.filter(toolName).filter(positive).slice(-5)\<close>.
\<close>

definition relevantTraining :: "ToolExecutionRequest \<Rightarrow> bridge \<Rightarrow> TrainingData list" where
  "relevantTraining request b =
     (let matching =
            filter (\<lambda>d. feedback d = Positive)
              (filter (\<lambda>d. toolName (toolCall d) = toolName request) (trainingData b))
      in drop (length matching - 5) matching)"

definition optimize_prompt ::
  "world \<Rightarrow> ToolExecutionRequest \<Rightarrow> MCPTool \<Rightarrow> TrainingData list \<Rightarrow> string" where
  "optimize_prompt W request tool relevant =
     template
       [[],
        ''    Optimize this tool call based on successful past interactions:'',
        ''    '',
        ''    Tool: '' @ toolName request,
        ''    User Intent: '' @
          (case userIntent request of
             None \<Rightarrow> ''Not specified''
           | Some i \<Rightarrow> if i = [] then ''Not specified'' else i),
        ''    Current Parameters: '' @ interpolate (json_pretty W (parameters request)),
        ''    Tool Schema: '' @ interpolate (json_pretty W (inputSchema tool)),
        ''    '',
        ''    Successful past interactions:'',
        ''    '' @
          join [LF]
            (map (\<lambda>t. case json_stringify W (parameters (toolCall t)) of
                         None \<Rightarrow> [] | Some j \<Rightarrow> j) relevant),
        ''    '',
        ''    Return optimized parameters as JSON that best fulfills the user intent.'',
        ''    '']"

definition optimizeToolRequest ::
  "world \<Rightarrow> ToolExecutionRequest \<Rightarrow> bridge \<Rightarrow> ToolExecutionRequest \<times> bridge" where
  "optimizeToolRequest W request b =
     (case map_of (toolCache b) (toolName request) of
        None \<Rightarrow> (request, b)
      | Some tool \<Rightarrow>
          (case ask W (optimize_prompt W request tool (relevantTraining request b)) b of
             (Inl e, b1) \<Rightarrow> (request, b1)
           | (Inr response, b1) \<Rightarrow>
               (case json_parse W response of
                  None \<Rightarrow> (request, b1)
                | Some optimizedParams \<Rightarrow> (request\<lparr>parameters := optimizedParams\<rparr>, b1))))"

definition enhanceToolResult :: "MCPToolResult \<Rightarrow> ToolExecutionRequest \<Rightarrow> MCPToolResult" where
  "enhanceToolResult res originalRequest = res"

definition generateSuggestions :: "ToolExecutionRequest \<Rightarrow> bridge \<Rightarrow> string list" where
  "generateSuggestions request b =
     map (\<lambda>tool. ''Consider using '' @ quote (name tool) @ '' for '' @ description tool)
       (take 3 (filter (\<lambda>tool. name tool \<noteq> toolName request) (map snd (toolCache b))))"

definition generateErrorSuggestions :: "ToolExecutionRequest \<Rightarrow> string list" where
  "generateErrorSuggestions request =
     [''Check if the parameters match the expected schema for '' @ quote (toolName request),
      ''Verify that all required fields are provided'',
      ''Try using the how_tool command to get usage examples'']"

text \<open>
  \<open>executeToolCall(request)\<close>. \<open>reply tn args\<close> is the outcome with which the
  client's request for \<open>callTool(tn, args)\<close> is settled (by a response, by its timeout
  or at once without a child). \<open>executeToolCall_try\<close> is the \<open>try\<close> block, whose
  value is what it returns or throws; \<open>executeToolCall\<close> adds the \<open>catch\<close>.
\<close>

definition executeToolCall_try ::
  "world \<Rightarrow> (string \<Rightarrow> jsval \<Rightarrow> outcome) \<Rightarrow> ToolExecutionRequest \<Rightarrow> bridge \<Rightarrow>
   (thrown + ToolExecutionResult) \<times> bridge" where
  "executeToolCall_try W reply request b =
     (let (optimizedRequest, b1) = optimizeToolRequest W request b;
          b2 = b1\<lparr>toolCalls := toolCalls b1 @
                 [(toolName optimizedRequest, parameters optimizedRequest)]\<rparr>
      in case callTool_return
                (reply (toolName optimizedRequest) (parameters optimizedRequest)) of
           Inl e \<Rightarrow> (Inl e, b2)
         | Inr res \<Rightarrow>
             (let enhancedResult = enhanceToolResult res request in
              (Inr \<lparr>success = \<not> truthy (isError res), result = Some enhancedResult,
                    error = None, suggestions = generateSuggestions request b2\<rparr>, b2)))"

definition executeToolCall ::
  "world \<Rightarrow> (string \<Rightarrow> jsval \<Rightarrow> outcome) \<Rightarrow> ToolExecutionRequest \<Rightarrow> bridge \<Rightarrow>
   ToolExecutionResult \<times> bridge" where
  "executeToolCall W reply request b =
     (case executeToolCall_try W reply request b of
        (Inr executionResult, b1) \<Rightarrow> (executionResult, b1)
      | (Inl e, b1) \<Rightarrow>
          (\<lparr>success = False, result = None,
            error = Some (case e of Error m \<Rightarrow> m | NonError v \<Rightarrow> ''Unknown error occurred''),
            suggestions = generateErrorSuggestions request\<rparr>, b1))"

section \<open>The front surface (class SimplifiedMCPServer)\<close>

text \<open>
  \<open>useTool(toolName, parameters, context)\<close>: the call is executed, then recorded by
  \<open>trainOnInteraction\<close> with three arguments, so without feedback.
\<close>

definition useTool ::
  "world \<Rightarrow> (string \<Rightarrow> jsval \<Rightarrow> outcome) \<Rightarrow> string \<Rightarrow> jsval \<Rightarrow> string option \<Rightarrow> nat \<Rightarrow>
   bridge \<Rightarrow> ToolExecutionResult \<times> bridge" where
  "useTool W reply tn params ctx now b =
     (let request = \<lparr>toolName = tn, parameters = params, requestContext = ctx,
                      userIntent = ctx\<rparr>;
          (res, b1) = executeToolCall W reply request b;
          trainingRequest = \<lparr>toolName = tn, parameters = params, requestContext = ctx,
                              userIntent = None\<rparr>;
          intent = (case ctx of
                      None \<Rightarrow> ''Execute '' @ tn
                    | Some c \<Rightarrow> if c = [] then ''Execute '' @ tn else c)
      in (res, trainOnInteraction intent trainingRequest res None now b1))"





section \<open>Sequences of operations on the bridge\<close>

text \<open>
  The operations of the bridge and of the front surface on it, with what the
  collaborators answer during each, and the bridge after a sequence of them.
\<close>

datatype bridge_op =
    Initialize "thrown option" "thrown + MCPTool list"
  | DiscoverTools "thrown + MCPTool list"
  | GetToolUsage string
  | ExecuteToolCall "string \<Rightarrow> jsval \<Rightarrow> outcome" ToolExecutionRequest
  | TrainOnInteraction string ToolExecutionRequest ToolExecutionResult "feedback option" nat
  | UseTool "string \<Rightarrow> jsval \<Rightarrow> outcome" string jsval "string option" nat

fun perform :: "world \<Rightarrow> bridge_op \<Rightarrow> bridge \<Rightarrow> bridge" where
  "perform W (Initialize connecting listed) b = snd (initialize W connecting listed b)"
| "perform W (DiscoverTools listed) b = snd (discoverTools listed b)"
| "perform W (GetToolUsage tn) b = snd (getToolUsage W tn b)"
| "perform W (ExecuteToolCall reply request) b = snd (executeToolCall W reply request b)"
| "perform W (TrainOnInteraction intent call res userFeedback now) b =
     trainOnInteraction intent call res userFeedback now b"
| "perform W (UseTool reply tn params ctx now) b = snd (useTool W reply tn params ctx now b)"

definition performs :: "world \<Rightarrow> bridge_op list \<Rightarrow> bridge \<Rightarrow> bridge" where
  "performs W ops b = fold (perform W) ops b"

text \<open>The record that \<open>trainOnInteraction\<close> builds from its arguments.\<close>

fun entry_of :: "bridge_op \<Rightarrow> TrainingData option" where
  "entry_of (TrainOnInteraction intent call res userFeedback now) =
     Some \<lparr>td_userIntent = intent, toolCall = call, td_result = res,
           feedback = (case userFeedback of None \<Rightarrow> Neutral | Some f \<Rightarrow> f),
           timestamp = now\<rparr>"
| "entry_of other = None"

fun is_train :: "bridge_op \<Rightarrow> bool" where
  "is_train (TrainOnInteraction intent call res userFeedback now) = True"
| "is_train other = False"

fun is_initialize :: "bridge_op \<Rightarrow> bool" where
  "is_initialize (Initialize connecting listed) = True"
| "is_initialize other = False"

fun gives_positive :: "bridge_op \<Rightarrow> bool" where
  "gives_positive (TrainOnInteraction intent call res userFeedback now) =
     (userFeedback = Some Positive)"
| "gives_positive other = False"

section \<open>Notions used in the statements\<close>

text \<open>
  The state of a promise: the outcome of the first call recorded for it, if any.
\<close>

definition promise_state :: "client \<Rightarrow> nat \<Rightarrow> outcome option" where
  "promise_state s p = map_of (settlements s) p"


definition consistent :: "bridge \<Rightarrow> bool" where
  "consistent b = (\<forall>k. usageExamples b k \<noteq> None \<longrightarrow> map_of (toolCache b) k \<noteq> None)"

definition not_found :: "string \<Rightarrow> thrown" where
  "not_found tn = Error (''Tool '' @ quote tn @ '' not found'')"

section \<open>Sample inputs\<close>

text \<open>
  The provider that \<open>createModelProvider\<close> returns: every call answers with the same
  JSON text. \<open>mock_world\<close> pairs it with a stand-in for \<open>JSON.parse\<close> that reads
  this text and rejects every other, and for \<open>JSON.stringify\<close> that is never
  defined; the examples below parse no other text. In \<open>deaf_world\<close>,
  \<open>JSON.parse\<close> rejects every text.
\<close>

definition mock_text :: string where
  \<open>mock_text = ''{"examples":[],"relatedTools":[],"category":"Utility"}''\<close>

definition mock_world :: world where
  "mock_world =
     \<lparr>json_parse =
        (\<lambda>t. if t = mock_text
              then Some (JObj [(''examples'', JArr []), (''relatedTools'', JArr []),
                               (''category'', JStr ''Utility'')])
              else None),
      json_stringify = (\<lambda>v. None),
      json_pretty = (\<lambda>v. None),
      generateResponse = (\<lambda>k prompt. Inr mock_text)\<rparr>"

definition deaf_world :: world where
  "deaf_world = mock_world\<lparr>json_parse := (\<lambda>t. None)\<rparr>"

text \<open>
  Two tools, a bridge that has cached both, a request, a result, a recorded
  interaction with positive feedback, a bridge that knows \<open>echo\<close> and has recorded
  seven such interactions, and the child's answer to a call of \<open>echo\<close>.
\<close>

definition echo_tool :: MCPTool where
  "echo_tool = \<lparr>name = ''echo'', description = ''Echoes the message'', inputSchema = JObj []\<rparr>"



definition sample_request :: ToolExecutionRequest where
  "sample_request =
     \<lparr>toolName = ''echo'', parameters = JObj [], requestContext = None, userIntent = None\<rparr>"

definition sample_result :: ToolExecutionResult where
  "sample_result = \<lparr>success = True, result = None, error = None, suggestions = []\<rparr>"

definition sample_train :: "nat \<Rightarrow> bridge_op" where
  "sample_train t = TrainOnInteraction ''say hi'' sample_request sample_result (Some Positive) t"

definition trained_bridge :: bridge where
  "trained_bridge =
     performs mock_world (map sample_train [1, 2, 3, 4, 5, 6, 7])
       (new_bridge\<lparr>toolCache := [(''echo'', echo_tool)]\<rparr>)"

definition echo_reply :: "string \<Rightarrow> jsval \<Rightarrow> outcome" where
  "echo_reply tn args =
     Resolved (JObj [(''content'', JArr [JObj [(''type'', JStr ''text''), (''text'', JStr ''Echo: hi'')]])])"

text \<open>
  One line of the child's output and a stand-in for \<open>JSON.parse\<close> that reads this
  line (as the success response with id 2 that it is) and rejects every other text; the
  examples below use no other line that \<open>JSON.parse\<close> would accept. The line cut
  in two, and a connected client with one tool call outstanding: the handshake (id 1)
  was answered, the call has id 2 and promise 2.
\<close>

definition sample_line :: string where
  \<open>sample_line = ''{"jsonrpc":"2.0","id":2,"result":{}}''\<close>

definition sample_parse :: "string \<Rightarrow> jsval option" where
  "sample_parse line = (if line = sample_line then Some (success_response 2 (JObj [])) else None)"

definition fragment1 :: string where
  \<open>fragment1 = ''{"jsonrpc":"2.0",''\<close>

definition fragment2 :: string where
  \<open>fragment2 = ''"id":2,"result":{}}''\<close>

definition awaiting_reply :: client where
  "awaiting_reply =
     snd (callTool ''echo'' JNull (deliver [success_response 1 (JObj [])] (snd (connect pipes new_client))))"

section \<open>Following one request\<close>

text \<open>
  Following one request through a run, for the proofs about timeouts. The request has
  id \<open>i\<close> and promise \<open>p\<close>, and \<open>n\<close> calls had been recorded when it was sent.
  \<open>tracked\<close>: the id has been issued and nothing else refers to the promise.
  \<open>awaiting\<close>: the request is pending and its promise unsettled. \<open>expired\<close>: the
  request is no longer pending and its promise was rejected once, by its timer.
  \<open>stage D b\<close>: the request is awaiting with its timer armed for \<open>D\<close> (\<open>b\<close>
  false) or expired (\<open>b\<close> true), and no other timer shares its id or promise.
\<close>

definition timeout_error :: "nat \<Rightarrow> outcome" where
  "timeout_error i = Rejected (''Request '' @ show_nat i @ '' timed out'')"

definition tracked :: "nat \<Rightarrow> nat \<Rightarrow> nat \<Rightarrow> client \<Rightarrow> bool" where
  "tracked i p n s =
     (i \<le> messageId s \<and> p < promises s \<and> n \<le> length (settlements s) \<and>
      (\<forall>j. pendingRequests s j = Some p \<longrightarrow> j = i) \<and>
      (\<forall>q \<in> set (listeners s). q \<noteq> p) \<and>
      (\<forall>p0 q. reactions s p0 = Some q \<longrightarrow> q \<noteq> p))"

definition awaiting :: "nat \<Rightarrow> nat \<Rightarrow> nat \<Rightarrow> client \<Rightarrow> bool" where
  "awaiting i p n s =
     (tracked i p n s \<and> pendingRequests s i = Some p \<and> settled_since n p s = [])"

definition expired :: "nat \<Rightarrow> nat \<Rightarrow> nat \<Rightarrow> client \<Rightarrow> bool" where
  "expired i p n s =
     (tracked i p n s \<and> pendingRequests s i = None \<and>
      settled_since n p s = [timeout_error i])"

definition foreign :: "nat \<Rightarrow> nat \<Rightarrow> nat \<times> nat \<Rightarrow> bool" where
  "foreign i p ip = (fst ip \<noteq> i \<and> snd ip \<noteq> p)"

definition phase :: "bool \<Rightarrow> nat \<Rightarrow> nat \<Rightarrow> nat \<Rightarrow> client \<Rightarrow> bool" where
  "phase b i p n s = (if b then expired i p n s else awaiting i p n s)"

definition timers_ok :: "nat \<Rightarrow> nat \<Rightarrow> client \<Rightarrow> bool" where
  "timers_ok i p s =
     (\<forall>tm \<in> set (timers s). clock s < fst tm \<and> (snd tm = (i, p) \<or> foreign i p (snd tm)))"

definition stage :: "nat \<Rightarrow> bool \<Rightarrow> nat \<Rightarrow> nat \<Rightarrow> nat \<Rightarrow> client \<Rightarrow> bool" where
  "stage D b i p n s =
     (phase b i p n s \<and> timers_ok i p s \<and> (b \<or> (D, i, p) \<in> set (timers s)))"

section \<open>Properties of the transport client\<close>

subsection \<open>Correlation of responses with requests\<close>

lemma get_prop_truthy: "truthy v \<Longrightarrow> \<exists>w. get_prop v k = Inr w"
  by (cases v) auto

lemma get_prop_Inr_any: "get_prop m k = Inr v \<Longrightarrow> \<exists>w. get_prop m k' = Inr w"
  by (cases m) auto

lemma response_outcome_defined:
  assumes "message_id m = Some i"
  shows "\<exists>out. response_outcome m = Inr out"
proof -
  from assms obtain v where v: "get_prop m ''id'' = Inr v"
    by (auto simp: message_id_def split: sum.splits)
  obtain e where e: "get_prop m ''error'' = Inr e" using get_prop_Inr_any[OF v] by blast
  obtain r where r: "get_prop m ''result'' = Inr r" using get_prop_Inr_any[OF v] by blast
  show ?thesis
  proof (cases "truthy e")
    case True
    then obtain w where "get_prop e ''message'' = Inr w" using get_prop_truthy by blast
    with e True show ?thesis by (simp add: response_outcome_def)
  next
    case False
    with e r show ?thesis by (simp add: response_outcome_def)
  qed
qed

lemma on_message_pending:
  assumes "message_id m = Some i" "pendingRequests s i = Some p" "response_outcome m = Inr out"
  shows "on_message m s = settle p out (s\<lparr>pendingRequests := (pendingRequests s)(i := None)\<rparr>)"
  using assms
  by (auto simp: on_message_def handleMessage_def message_id_def split: sum.splits if_splits)

lemma on_message_not_pending:
  assumes "message_id m = None \<or> (\<exists>i. message_id m = Some i \<and> pendingRequests s i = None)"
  shows "on_message m s = s"
  using assms
  by (auto simp: on_message_def handleMessage_def message_id_def split: sum.splits if_splits option.splits)

lemma settle_plain:
  "reactions s p = None \<Longrightarrow> settle p out s = s\<lparr>settlements := settlements s @ [(p, out)]\<rparr>"
  by (simp add: settle_def)

lemma sendRequest_up:
  "has_stdin s \<Longrightarrow>
   sendRequest r s =
     (promises s,
      s\<lparr>promises := promises s + 1,
        pendingRequests := (pendingRequests s)(req_id r \<mapsto> promises s),
        written := written s @ [r],
        timers := timers s @ [(clock s + timeout_ms, req_id r, promises s)]\<rparr>)"
  by (simp add: sendRequest_def new_promise_def has_stdin_def)

lemma callTool_up:
  "has_stdin s \<Longrightarrow>
   callTool n a s =
     (promises s,
      s\<lparr>messageId := messageId s + 1, promises := promises s + 1,
        pendingRequests := (pendingRequests s)(messageId s + 1 \<mapsto> promises s),
        written := written s @ [\<lparr>req_id = messageId s + 1, req_method = ''tools/call'',
         req_params = JObj [(''name'', JStr n), (''arguments'', a)]\<rparr>],
        timers := timers s @ [(clock s + timeout_ms, messageId s + 1, promises s)]\<rparr>)"
  by (simp add: callTool_def getNextId_def sendRequest_up has_stdin_def)

lemma issue_effect:
  "has_stdin s \<Longrightarrow> issue calls s = (ps, s1) \<Longrightarrow>
     length ps = length calls \<and> (\<forall>k<length calls. ps ! k = promises s + k) \<and>
     pendingRequests s1 =
       (\<lambda>i. if messageId s < i \<and> i \<le> messageId s + length calls
            then Some (promises s + (i - messageId s - 1)) else pendingRequests s i) \<and>
     settlements s1 = settlements s \<and> reactions s1 = reactions s \<and>
     messageId s1 = messageId s + length calls \<and> has_stdin s1"
proof (induction calls arbitrary: s ps s1)
  case Nil
  then show ?case by (auto simp: fun_eq_iff)
next
  case (Cons c calls)
  obtain n a where c: "c = (n, a)" by (cases c)
  let ?s' = "snd (callTool n a s)"
  obtain ps' where ps': "issue calls ?s' = (ps', s1)" "ps = promises s # ps'"
    using Cons.prems c by (auto simp: callTool_up split: prod.splits)
  have up: "has_stdin ?s'" using Cons.prems(1) by (simp add: callTool_up has_stdin_def)
  note IH = Cons.IH[OF up ps'(1)]
  have m: "messageId ?s' = messageId s + 1" "promises ?s' = promises s + 1"
    "settlements ?s' = settlements s" "reactions ?s' = reactions s"
    "pendingRequests ?s' = (pendingRequests s)(messageId s + 1 \<mapsto> promises s)"
    using Cons.prems(1) by (simp_all add: callTool_up)
  have a: "length ps = length (c # calls) \<and> (\<forall>k<length (c # calls). ps ! k = promises s + k)"
    using IH ps'(2) unfolding m by (auto simp: nth_Cons')
  have b: "pendingRequests s1 =
       (\<lambda>i. if messageId s < i \<and> i \<le> messageId s + length (c # calls)
            then Some (promises s + (i - messageId s - 1)) else pendingRequests s i)"
    using IH unfolding m by (auto simp: fun_eq_iff)
  have c: "settlements s1 = settlements s \<and> reactions s1 = reactions s \<and>
     messageId s1 = messageId s + length (c # calls) \<and> has_stdin s1"
    using IH unfolding m by simp
  show ?case using a b c by blast
qed


lemma deliver_effect:
  assumes "reactions s = Map.empty" "map message_id ms = map Some ids" "distinct ids"
    "\<forall>i\<in>set ids. pendingRequests s i \<noteq> None"
  shows "settlements (deliver ms s) =
           settlements s @
             map (\<lambda>m. (the (pendingRequests s (the (message_id m))), projr (response_outcome m))) ms \<and>
         pendingRequests (deliver ms s) = (\<lambda>i. if i \<in> set ids then None else pendingRequests s i) \<and>
         reactions (deliver ms s) = Map.empty"
  using assms
proof (induction ms arbitrary: s ids)
  case Nil
  then show ?case by (simp add: deliver_def)
next
  case (Cons m ms)
  then obtain i ids' where ids: "ids = i # ids'" "message_id m = Some i"
    "map message_id ms = map Some ids'" by (cases ids) auto
  from Cons.prems(4) ids obtain p where p: "pendingRequests s i = Some p" by auto
  obtain out where out: "response_outcome m = Inr out"
    using response_outcome_defined[OF ids(2)] by blast
  let ?s' = "s\<lparr>pendingRequests := (pendingRequests s)(i := None),
               settlements := settlements s @ [(p, out)]\<rparr>"
  have step: "on_message m s = ?s'"
    using on_message_pending[OF ids(2) p out] Cons.prems(1) by (simp add: settle_def)
  have d: "deliver (m # ms) s = deliver ms ?s'"
    by (simp add: deliver_def step)
  have ni: "i \<notin> set ids'" "distinct ids'" using Cons.prems(3) ids(1) by auto
  have pre: "reactions ?s' = Map.empty" "\<forall>j\<in>set ids'. pendingRequests ?s' j \<noteq> None"
    using Cons.prems(1,4) ids(1) ni by auto
  note IH = Cons.IH[OF pre(1) ids(3) ni(2) pre(2)]
  have same: "\<And>m'. m' \<in> set ms \<Longrightarrow>
      pendingRequests ?s' (the (message_id m')) = pendingRequests s (the (message_id m'))"
  proof -
    fix m' assume "m' \<in> set ms"
    then have "message_id m' \<in> set (map Some ids')" using ids(3) by (metis imageI set_map)
    then have "the (message_id m') \<in> set ids'" by auto
    with ni(1) show "pendingRequests ?s' (the (message_id m')) = pendingRequests s (the (message_id m'))"
      by auto
  qed
  have a: "settlements (deliver (m # ms) s) =
           settlements s @
             map (\<lambda>m. (the (pendingRequests s (the (message_id m))), projr (response_outcome m))) (m # ms)"
    unfolding d using IH same ids(2) p out by simp
  have b: "pendingRequests (deliver (m # ms) s) = (\<lambda>j. if j \<in> set ids then None else pendingRequests s j)"
    unfolding d using IH ids(1) by (auto simp: fun_eq_iff)
  have c: "reactions (deliver (m # ms) s) = Map.empty"
    unfolding d using IH by simp
  show ?case using a b c by blast
qed

lemma filter_unique:
  assumes "distinct (map f xs)" "x \<in> set xs"
  shows "filter (\<lambda>y. f y = f x) xs = [x]"
  using assms
proof (induction xs)
  case Nil
  then show ?case by simp
next
  case (Cons a xs)
  show ?case
  proof (cases "a = x")
    case True
    have "f x \<notin> f ` set xs" using Cons.prems(1) True by simp
    then have "\<forall>y\<in>set xs. f y \<noteq> f x" by (metis imageI)
    then have "filter (\<lambda>y. f y = f x) xs = []"
      by (simp add: filter_empty_conv)
    with True show ?thesis by simp
  next
    case False
    then have "x \<in> set xs" using Cons.prems(2) by simp
    moreover have "f a \<noteq> f x" using Cons.prems(1) \<open>x \<in> set xs\<close> by auto
    ultimately show ?thesis using Cons by simp
  qed
qed

lemma fold_on_timeout_idle:
  "pendingRequests s = Map.empty \<Longrightarrow> fold on_timeout ips s = s"
  by (induction ips arbitrary: s) (auto simp: on_timeout_def)

lemma advance_idle:
  "pendingRequests s = Map.empty \<Longrightarrow>
   advance d s = s\<lparr>clock := clock s + d, timers := filter (\<lambda>tm. \<not> due (clock s + d) tm) (timers s)\<rparr>"
  by (simp add: advance_def Let_def fold_on_timeout_idle)


lemma settled_since_advance_idle:
  "pendingRequests s = Map.empty \<Longrightarrow> settled_since n p (advance d s) = settled_since n p s"
  by (simp add: advance_idle settled_since_def)

text \<open>
  Claim C1. On a client with a live child and nothing outstanding, any number of
  \<open>callTool\<close> invocations are issued; they get the ids \<open>messageId + 1\<close>, \<open>messageId + 2\<close>, ...
  and one promise each. One response per invocation then arrives, in any order
  (\<open>ids\<close> is the arrival order of the ids). Afterwards no request is pending, and for
  every invocation exactly one call settled its promise: the one made with the outcome
  of the response whose id is the invocation's id. The timers that are still armed
  never settle a promise a second time, however much time passes.
\<close>

theorem callTool_correlation:
  assumes up: "has_stdin s0"
    and idle: "pendingRequests s0 = Map.empty" "reactions s0 = Map.empty"
    and issued: "issue calls s0 = (ps, s1)"
    and ids: "map message_id ms = map Some ids" "distinct ids"
      "set ids = {messageId s0 + 1 .. messageId s0 + length calls}"
  shows "length ps = length calls \<and> distinct ps \<and>
         pendingRequests (deliver ms s1) = Map.empty \<and>
         (\<forall>k<length calls.
            \<exists>m out. m \<in> set ms \<and> message_id m = Some (messageId s0 + 1 + k) \<and>
              response_outcome m = Inr out \<and>
              settled_since (length (settlements s0)) (ps ! k) (deliver ms s1) = [out] \<and>
              (\<forall>d. settled_since (length (settlements s0)) (ps ! k)
                     (advance d (deliver ms s1)) = [out]))"
proof -
  note I = issue_effect[OF up issued]
  have len: "length ps = length calls"
    and nth: "\<And>k. k < length calls \<Longrightarrow> ps ! k = promises s0 + k"
    using I by auto
  have pend: "\<And>i. pendingRequests s1 i =
      (if messageId s0 < i \<and> i \<le> messageId s0 + length calls
       then Some (promises s0 + (i - messageId s0 - 1)) else None)"
    using I idle(1) by simp
  have dps: "distinct ps"
    using len nth by (auto simp: distinct_conv_nth)
  have pre: "reactions s1 = Map.empty" "\<forall>i\<in>set ids. pendingRequests s1 i \<noteq> None"
    using I idle(2) ids(3) pend by auto
  note D = deliver_effect[OF pre(1) ids(1,2) pre(2)]
  have empty: "pendingRequests (deliver ms s1) = Map.empty"
    using D pend ids(3) by (auto simp: fun_eq_iff)
  let ?g = "\<lambda>m. the (pendingRequests s1 (the (message_id m)))"
  let ?h = "\<lambda>m. projr (response_outcome m)"
  have since: "\<And>p. settled_since (length (settlements s0)) p (deliver ms s1) =
      map ?h (filter (\<lambda>m. ?g m = p) ms)"
    using D I by (simp add: settled_since_def filter_map comp_def)
  have dm: "distinct (map message_id ms)"
    using ids(1,2) by (simp add: distinct_map inj_on_def)
  have each: "\<exists>m out. m \<in> set ms \<and> message_id m = Some (messageId s0 + 1 + k) \<and>
              response_outcome m = Inr out \<and>
              settled_since (length (settlements s0)) (ps ! k) (deliver ms s1) = [out] \<and>
              (\<forall>d. settled_since (length (settlements s0)) (ps ! k)
                     (advance d (deliver ms s1)) = [out])"
    if k: "k < length calls" for k
  proof -
    have "messageId s0 + 1 + k \<in> set ids" using ids(3) k by auto
    then have "Some (messageId s0 + 1 + k) \<in> set (map message_id ms)" using ids(1) by simp
    then obtain m where m: "m \<in> set ms" "message_id m = Some (messageId s0 + 1 + k)" by auto
    obtain out where out: "response_outcome m = Inr out"
      using response_outcome_defined[OF m(2)] by blast
    have g: "?g m' = ps ! k \<longleftrightarrow> message_id m' = message_id m" if m': "m' \<in> set ms" for m'
    proof -
      from m' have "message_id m' \<in> set (map Some ids)" using ids(1) by (metis imageI set_map)
      then obtain j where j: "message_id m' = Some j" "j \<in> set ids" by auto
      then have jr: "messageId s0 < j" "j \<le> messageId s0 + length calls" using ids(3) by auto
      show ?thesis using j(1) jr m(2) k by (auto simp: pend nth)
    qed
    have "filter (\<lambda>m'. ?g m' = ps ! k) ms = filter (\<lambda>m'. message_id m' = message_id m) ms"
      using g by (intro filter_cong) auto
    also have "\<dots> = [m]" using filter_unique[OF dm m(1)] .
    finally have one: "settled_since (length (settlements s0)) (ps ! k) (deliver ms s1) = [out]"
      using since out by simp
    have "\<forall>d. settled_since (length (settlements s0)) (ps ! k)
                     (advance d (deliver ms s1)) = [out]"
      using one settled_since_advance_idle[OF empty] by simp
    with m out one show ?thesis by blast
  qed
  show ?thesis using len dps empty each by blast
qed

text \<open>
  Three invocations on a fresh client with a live child; the responses arrive in the
  order 2, 3, 1. The first invocation is settled once, by the response with id 1.
\<close>

theorem callTool_correlation_witness:
  "settled_since 0
     (fst (issue [(''echo'', JNull), (''add'', JNull), (''sub'', JNull)]
        (new_client\<lparr>process := Some pipes\<rparr>)) ! 0)
     (deliver [success_response 2 (JStr ''b''), success_response 3 (JStr ''c''), success_response 1 (JStr ''a'')]
        (snd (issue [(''echo'', JNull), (''add'', JNull), (''sub'', JNull)]
           (new_client\<lparr>process := Some pipes\<rparr>)))) = [Resolved (JStr ''a'')]"
proof -
  let ?s0 = "new_client\<lparr>process := Some pipes\<rparr>"
  let ?calls = "[(''echo'', JNull), (''add'', JNull), (''sub'', JNull)]"
  let ?ms = "[success_response 2 (JStr ''b''), success_response 3 (JStr ''c''), success_response 1 (JStr ''a'')]"
  have up: "has_stdin ?s0" by (simp add: has_stdin_def pipes_def)
  have idle: "pendingRequests ?s0 = Map.empty" "reactions ?s0 = Map.empty"
    by (simp_all add: new_client_def)
  have issued: "issue ?calls ?s0 = (fst (issue ?calls ?s0), snd (issue ?calls ?s0))" by simp
  have ids: "map message_id ?ms = map Some [2, 3, 1]"
    by (simp add: message_id_def success_response_def)
  have range: "set [2, 3, 1] = {messageId ?s0 + 1 .. messageId ?s0 + length ?calls}"
    by (auto simp: new_client_def)
  have d: "distinct [2, 3, 1::nat]" by simp
  from callTool_correlation[OF up idle issued ids d range]
  have all: "\<And>k. k < length ?calls \<Longrightarrow>
      \<exists>m out. m \<in> set ?ms \<and> message_id m = Some (messageId ?s0 + 1 + k) \<and>
      response_outcome m = Inr out \<and>
      settled_since (length (settlements ?s0)) (fst (issue ?calls ?s0) ! k)
        (deliver ?ms (snd (issue ?calls ?s0))) = [out]"
    by blast
  have "(0::nat) < length ?calls" by simp
  from all[OF this] obtain m out where m: "m \<in> set ?ms"
      "message_id m = Some (messageId ?s0 + 1 + 0)"
      "response_outcome m = Inr out"
      "settled_since (length (settlements ?s0)) (fst (issue ?calls ?s0) ! 0)
         (deliver ?ms (snd (issue ?calls ?s0))) = [out]"
    by blast
  from m(1,2) have "m = success_response 1 (JStr ''a'')"
    by (auto simp: message_id_def success_response_def new_client_def)
  with m(3) have "out = Resolved (JStr ''a'')"
    by (simp add: response_outcome_def success_response_def)
  with m(4) show ?thesis by (simp add: new_client_def)
qed

subsection \<open>Timeouts\<close>

lemma settled_since_append:
  "n \<le> length (settlements s) \<Longrightarrow> settlements s' = settlements s @ xs \<Longrightarrow>
   settled_since n p s' = settled_since n p s @ map snd (filter (\<lambda>c. fst c = p) xs)"
  by (simp add: settled_since_def)

lemma react_fields:
  "pendingRequests (react q out s) = pendingRequests s"
  "timers (react q out s) = timers s"
  "clock (react q out s) = clock s"
  "messageId (react q out s) = messageId s"
  "promises (react q out s) = promises s"
  "reactions (react q out s) = reactions s"
  "listeners (react q out s) = listeners s"
  "process (react q out s) = process s"
  "settlements (react q out s) =
     settlements s @ [(q, case out of Resolved v \<Rightarrow> Resolved Undefined | Rejected e \<Rightarrow> Rejected e)]"
  by (simp_all add: react_def split: outcome.splits)

lemma settle_fields:
  "pendingRequests (settle x out s) = pendingRequests s"
  "timers (settle x out s) = timers s"
  "clock (settle x out s) = clock s"
  "messageId (settle x out s) = messageId s"
  "promises (settle x out s) = promises s"
  "listeners (settle x out s) = listeners s"
  "process (settle x out s) = process s"
  "reactions (settle x out s) = (reactions s)(x := None)"
  "settlements (settle x out s) =
     settlements s @ (x, out) #
       (case reactions s x of None \<Rightarrow> []
        | Some q \<Rightarrow> [(q, case out of Resolved v \<Rightarrow> Resolved Undefined | Rejected e \<Rightarrow> Rejected e)])"
  by (auto simp: settle_def Let_def react_fields split: option.splits)

lemma tracked_settle:
  "tracked i p n s \<Longrightarrow> tracked i p n (settle x out s)"
  by (auto simp: tracked_def settle_fields split: if_splits)

lemma settled_since_settle_other:
  assumes "tracked i p n s" "x \<noteq> p"
  shows "settled_since n p (settle x out s) = settled_since n p s"
proof -
  have n: "n \<le> length (settlements s)" using assms(1) by (simp add: tracked_def)
  have q: "\<And>q. reactions s x = Some q \<Longrightarrow> q \<noteq> p" using assms(1) by (auto simp: tracked_def)
  show ?thesis
    using assms(2) q
    by (simp add: settled_since_append[OF n settle_fields(9)] split: option.splits)
qed

lemma settled_since_settle_self:
  assumes "tracked i p n s"
  shows "settled_since n p (settle p out s) = settled_since n p s @ [out]"
proof -
  have n: "n \<le> length (settlements s)" using assms(1) by (simp add: tracked_def)
  have q: "\<And>q. reactions s p = Some q \<Longrightarrow> q \<noteq> p" using assms(1) by (auto simp: tracked_def)
  show ?thesis
    using q
    by (simp add: settled_since_append[OF n settle_fields(9)] split: option.splits)
qed

lemma awaiting_settle_other:
  assumes "awaiting i p n s" "x \<noteq> p"
  shows "awaiting i p n (settle x out s)"
proof -
  have t: "tracked i p n s" using assms(1) by (simp add: awaiting_def)
  show ?thesis
    using assms(1) tracked_settle[OF t] settled_since_settle_other[OF t assms(2)]
    by (simp add: awaiting_def settle_fields)
qed

lemma expired_settle_other:
  assumes "expired i p n s" "x \<noteq> p"
  shows "expired i p n (settle x out s)"
proof -
  have t: "tracked i p n s" using assms(1) by (simp add: expired_def)
  show ?thesis
    using assms(1) tracked_settle[OF t] settled_since_settle_other[OF t assms(2)]
    by (simp add: expired_def settle_fields)
qed

text \<open>Removing a pending entry other than the tracked one.\<close>

lemma tracked_forget:
  "tracked i p n s \<Longrightarrow> tracked i p n (s\<lparr>pendingRequests := (pendingRequests s)(j := None)\<rparr>)"
  by (auto simp: tracked_def)

lemma awaiting_forget:
  "awaiting i p n s \<Longrightarrow> j \<noteq> i \<Longrightarrow>
   awaiting i p n (s\<lparr>pendingRequests := (pendingRequests s)(j := None)\<rparr>)"
  using tracked_forget[of i p n s j] by (simp add: awaiting_def settled_since_def)

lemma expired_forget:
  "expired i p n s \<Longrightarrow> expired i p n (s\<lparr>pendingRequests := (pendingRequests s)(j := None)\<rparr>)"
  using tracked_forget[of i p n s j] by (simp add: expired_def settled_since_def)

lemma awaiting_other_promise:
  "awaiting i p n s \<Longrightarrow> pendingRequests s j = Some x \<Longrightarrow> j \<noteq> i \<Longrightarrow> x \<noteq> p"
  by (auto simp: awaiting_def tracked_def)

lemma expired_other_promise:
  "expired i p n s \<Longrightarrow> pendingRequests s j = Some x \<Longrightarrow> x \<noteq> p \<and> j \<noteq> i"
  by (auto simp: expired_def tracked_def)

subsection \<open>Timers\<close>

lemma on_timeout_foreign_awaiting:
  assumes "awaiting i p n s" "foreign i p ip"
  shows "awaiting i p n (on_timeout ip s)"
proof (cases ip)
  case (Pair j x)
  with assms(2) have f: "j \<noteq> i" "x \<noteq> p" by (simp_all add: foreign_def)
  show ?thesis
    using awaiting_settle_other[OF awaiting_forget[OF assms(1) f(1)] f(2)] assms(1)
    by (simp add: on_timeout_def Pair)
qed

lemma on_timeout_foreign_expired:
  assumes "expired i p n s" "foreign i p ip"
  shows "expired i p n (on_timeout ip s)"
proof (cases ip)
  case (Pair j x)
  with assms(2) have f: "j \<noteq> i" "x \<noteq> p" by (simp_all add: foreign_def)
  show ?thesis
    using expired_settle_other[OF expired_forget[OF assms(1)] f(2)] assms(1)
    by (simp add: on_timeout_def Pair)
qed

lemma on_timeout_own_expired:
  "expired i p n s \<Longrightarrow> on_timeout (i, p) s = s"
  by (simp add: on_timeout_def expired_def)

lemma on_timeout_own_awaiting:
  assumes "awaiting i p n s"
  shows "expired i p n (on_timeout (i, p) s)"
proof -
  let ?s' = "s\<lparr>pendingRequests := (pendingRequests s)(i := None)\<rparr>"
  have t: "tracked i p n ?s'" using assms tracked_forget by (simp add: awaiting_def)
  have e: "settled_since n p ?s' = []" using assms by (simp add: awaiting_def settled_since_def)
  have "on_timeout (i, p) s = settle p (timeout_error i) ?s'"
    using assms by (simp add: on_timeout_def awaiting_def timeout_error_def)
  then show ?thesis
    using tracked_settle[OF t] settled_since_settle_self[OF t] e
    by (simp add: expired_def settle_fields)
qed

lemma fold_on_timeout_expired:
  "expired i p n s \<Longrightarrow> \<forall>ip \<in> set ips. ip = (i, p) \<or> foreign i p ip \<Longrightarrow>
   expired i p n (fold on_timeout ips s)"
proof (induction ips arbitrary: s)
  case Nil
  then show ?case by simp
next
  case (Cons ip ips)
  have "expired i p n (on_timeout ip s)"
    using Cons.prems on_timeout_own_expired on_timeout_foreign_expired by (cases "ip = (i, p)") auto
  then show ?case using Cons by simp
qed

lemma fold_on_timeout_awaiting:
  "awaiting i p n s \<Longrightarrow> \<forall>ip \<in> set ips. ip = (i, p) \<or> foreign i p ip \<Longrightarrow>
   (if (i, p) \<in> set ips then expired i p n (fold on_timeout ips s)
    else awaiting i p n (fold on_timeout ips s))"
proof (induction ips arbitrary: s)
  case Nil
  then show ?case by simp
next
  case (Cons ip ips)
  show ?case
  proof (cases "ip = (i, p)")
    case True
    have "expired i p n (on_timeout ip s)" using True Cons.prems(1) on_timeout_own_awaiting by simp
    then have "expired i p n (fold on_timeout ips (on_timeout ip s))"
      using fold_on_timeout_expired Cons.prems(2) by simp
    then show ?thesis using True by simp
  next
    case False
    then have "foreign i p ip" using Cons.prems(2) by auto
    then have "awaiting i p n (on_timeout ip s)"
      using Cons.prems(1) on_timeout_foreign_awaiting by simp
    from Cons.IH[OF this] Cons.prems(2) False show ?thesis by auto
  qed
qed

lemma phase_tracked: "phase b i p n s \<Longrightarrow> tracked i p n s"
  by (simp add: phase_def awaiting_def expired_def split: if_splits)

lemma phase_settle_other: "phase b i p n s \<Longrightarrow> x \<noteq> p \<Longrightarrow> phase b i p n (settle x out s)"
  by (simp add: phase_def awaiting_settle_other expired_settle_other)

lemma phase_frame:
  assumes "phase b i p n s"
    and "messageId s \<le> messageId s'" "promises s \<le> promises s'"
    and "settlements s' = settlements s"
    and "pendingRequests s' i = pendingRequests s i"
    and "\<forall>j. pendingRequests s' j = Some p \<longrightarrow> pendingRequests s j = Some p"
    and "\<forall>q \<in> set (listeners s'). q \<in> set (listeners s) \<or> q \<noteq> p"
    and "\<forall>p0 q. reactions s' p0 = Some q \<longrightarrow> reactions s p0 = Some q \<or> q \<noteq> p"
  shows "phase b i p n s'"
proof -
  have t: "tracked i p n s" using assms(1) by (rule phase_tracked)
  have t': "tracked i p n s'"
    unfolding tracked_def
  proof (intro conjI)
    show "i \<le> messageId s'" using t assms(2) by (simp add: tracked_def)
    show "p < promises s'" using t assms(3) by (simp add: tracked_def)
    show "n \<le> length (settlements s')" using t assms(4) by (simp add: tracked_def)
    show "\<forall>j. pendingRequests s' j = Some p \<longrightarrow> j = i" using t assms(6) by (simp add: tracked_def)
    show "\<forall>q\<in>set (listeners s'). q \<noteq> p" using t assms(7) by (auto simp: tracked_def)
    show "\<forall>p0 q. reactions s' p0 = Some q \<longrightarrow> q \<noteq> p"
    proof (intro allI impI)
      fix p0 q assume "reactions s' p0 = Some q"
      then have "reactions s p0 = Some q \<or> q \<noteq> p" using assms(8) by blast
      then show "q \<noteq> p" using t by (auto simp: tracked_def)
    qed
  qed
  have ss: "settled_since n p s' = settled_since n p s"
    using assms(4) by (simp add: settled_since_def)
  show ?thesis
    using assms(1) t' ss assms(5)
    by (simp add: phase_def awaiting_def expired_def split: if_splits)
qed

lemma phase_forget:
  assumes "phase b i p n s" "j \<noteq> i"
  shows "phase b i p n (s\<lparr>pendingRequests := (pendingRequests s)(j := None)\<rparr>)"
  using assms(2) by (intro phase_frame[OF assms(1)]) auto

lemma phase_other_promise:
  "phase b i p n s \<Longrightarrow> pendingRequests s j = Some x \<Longrightarrow> j \<noteq> i \<Longrightarrow> x \<noteq> p"
  using phase_tracked[of b i p n s] by (auto simp: tracked_def)

lemma phase_react_other:
  assumes "phase b i p n s" "q \<noteq> p"
  shows "phase b i p n (react q out s)"
proof -
  have t: "tracked i p n s" using assms(1) by (rule phase_tracked)
  then have n: "n \<le> length (settlements s)" by (simp add: tracked_def)
  have t': "tracked i p n (react q out s)"
    using t by (simp add: tracked_def react_fields)
  have ss: "settled_since n p (react q out s) = settled_since n p s"
    using assms(2) by (simp add: settled_since_append[OF n react_fields(9)])
  show ?thesis
    using assms(1) t' ss
    by (simp add: phase_def awaiting_def expired_def react_fields split: if_splits)
qed

lemma phase_new_promise:
  "phase b i p n s \<Longrightarrow> phase b i p n (snd (new_promise s)) \<and> fst (new_promise s) \<noteq> p"
  using phase_frame[of b i p n s "s\<lparr>promises := promises s + 1\<rparr>"] phase_tracked[of b i p n s]
  by (simp add: new_promise_def tracked_def)

lemma phase_getNextId:
  "phase b i p n s \<Longrightarrow> phase b i p n (snd (getNextId s)) \<and> fst (getNextId s) \<noteq> i"
  using phase_frame[of b i p n s "s\<lparr>messageId := messageId s + 1\<rparr>"] phase_tracked[of b i p n s]
  by (simp add: getNextId_def tracked_def)

lemma phase_sendRequest:
  assumes "phase b i p n s" "req_id r \<noteq> i"
  shows "phase b i p n (snd (sendRequest r s)) \<and> fst (sendRequest r s) \<noteq> p"
proof -
  let ?s1 = "s\<lparr>promises := promises s + 1\<rparr>"
  have 1: "phase b i p n ?s1" "promises s \<noteq> p"
    using phase_new_promise[OF assms(1)] by (simp_all add: new_promise_def)
  show ?thesis
  proof (cases "has_stdin s")
    case False
    then show ?thesis
      using phase_settle_other[OF 1] 1(2)
      by (simp add: sendRequest_def new_promise_def has_stdin_def)
  next
    case True
    let ?s2 = "?s1\<lparr>pendingRequests := (pendingRequests ?s1)(req_id r \<mapsto> promises s),
               written := written ?s1 @ [r],
               timers := timers ?s1 @ [(clock ?s1 + timeout_ms, req_id r, promises s)]\<rparr>"
    have "phase b i p n ?s2"
      using assms(2) 1(2) by (intro phase_frame[OF 1(1)]) auto
    then show ?thesis
      using True 1(2) by (simp add: sendRequest_def new_promise_def has_stdin_def)
  qed
qed

lemma stage_frame:
  "stage D b i p n s \<Longrightarrow> phase b i p n s' \<Longrightarrow> timers s' = timers s \<Longrightarrow> clock s' = clock s \<Longrightarrow>
   stage D b i p n s'"
  by (simp add: stage_def timers_ok_def)

lemma stage_phase: "stage D b i p n s \<Longrightarrow> phase b i p n s"
  by (simp add: stage_def)

lemma stage_sendRequest:
  assumes "stage D b i p n s" "req_id r \<noteq> i"
  shows "stage D b i p n (snd (sendRequest r s))"
proof -
  note ph = phase_sendRequest[OF stage_phase[OF assms(1)] assms(2)]
  have np: "promises s \<noteq> p" using ph by (simp add: sendRequest_def new_promise_def split: if_splits)
  show ?thesis
  proof (cases "has_stdin s")
    case False
    then have "timers (snd (sendRequest r s)) = timers s" "clock (snd (sendRequest r s)) = clock s"
      by (simp_all add: sendRequest_def new_promise_def has_stdin_def settle_fields)
    then show ?thesis using stage_frame[OF assms(1)] ph by simp
  next
    case True
    then have "timers (snd (sendRequest r s)) = timers s @ [(clock s + timeout_ms, req_id r, promises s)]"
      "clock (snd (sendRequest r s)) = clock s"
      by (simp_all add: sendRequest_def new_promise_def has_stdin_def)
    then show ?thesis
      using assms ph np
      by (auto simp: stage_def timers_ok_def foreign_def timeout_ms_def)
  qed
qed

lemma stage_getNextId:
  assumes "stage D b i p n s"
  shows "stage D b i p n (snd (getNextId s)) \<and> fst (getNextId s) \<noteq> i"
  using stage_frame[OF assms, of "snd (getNextId s)"] phase_getNextId[OF stage_phase[OF assms]]
  by (simp add: getNextId_def)

lemma stage_callTool:
  assumes "stage D b i p n s"
  shows "stage D b i p n (snd (callTool tn args s))"
  using stage_getNextId[OF assms] stage_sendRequest
  by (simp add: callTool_def split_beta)

lemma stage_listTools:
  assumes "stage D b i p n s"
  shows "stage D b i p n (snd (listTools s))"
  using stage_getNextId[OF assms] stage_sendRequest
  by (simp add: listTools_def split_beta)

lemma stage_settle_other:
  assumes "stage D b i p n s" "x \<noteq> p"
  shows "stage D b i p n (settle x out s)"
  using stage_frame[OF assms(1)] phase_settle_other[OF stage_phase[OF assms(1)] assms(2)]
  by (simp add: settle_fields)

lemma stage_react_other:
  assumes "stage D b i p n s" "x \<noteq> p"
  shows "stage D b i p n (react x out s)"
  using stage_frame[OF assms(1)] phase_react_other[OF stage_phase[OF assms(1)] assms(2)]
  by (simp add: react_fields)

lemma stage_on_exit: "stage D b i p n s \<Longrightarrow> stage D b i p n (on_exit s)"
  by (rule stage_frame, assumption, rule phase_frame[OF stage_phase]) (auto simp: on_exit_def)

lemma stage_disconnect: "stage D b i p n s \<Longrightarrow> stage D b i p n (disconnect s)"
  by (rule stage_frame, assumption, rule phase_frame[OF stage_phase]) (auto simp: disconnect_def)

lemma stage_reported: "stage D b i p n s \<Longrightarrow> stage D b i p n (s\<lparr>reported := x\<rparr>)"
  by (rule stage_frame, assumption, rule phase_frame[OF stage_phase]) auto

lemma stage_child_error:
  assumes "stage D b i p n s" "q \<in> set (listeners s)"
  shows "stage D b i p n (on_error q err s)"
proof -
  have "q \<noteq> p" using phase_tracked[OF stage_phase[OF assms(1)]] assms(2) by (auto simp: tracked_def)
  then show ?thesis using stage_settle_other[OF assms(1)] assms(1) by (simp add: on_error_def)
qed

lemma stage_attach:
  assumes "stage D b i p n s" "q \<noteq> p"
  shows "stage D b i p n (attach x q s)"
proof (cases "map_of (settlements s) x")
  case None
  have "stage D b i p n (s\<lparr>reactions := (reactions s)(x \<mapsto> q)\<rparr>)"
    using assms(2)
    by (intro stage_frame[OF assms(1)] phase_frame[OF stage_phase[OF assms(1)]]) auto
  then show ?thesis using None by (simp add: attach_def)
next
  case (Some out)
  then show ?thesis using stage_react_other[OF assms] by (simp add: attach_def)
qed

lemma stage_connect:
  assumes "stage D b i p n s"
  shows "stage D b i p n (snd (connect c s))"
proof -
  let ?q = "promises s"
  let ?s1 = "s\<lparr>promises := promises s + 1\<rparr>"
  let ?s2 = "?s1\<lparr>process := Some c\<rparr>"
  have q: "?q \<noteq> p" using phase_new_promise[OF stage_phase[OF assms]] by (simp add: new_promise_def)
  have s2: "stage D b i p n ?s2"
    using phase_tracked[OF stage_phase[OF assms]]
    by (intro stage_frame[OF assms] phase_frame[OF stage_phase[OF assms]]) (auto simp: tracked_def)
  show ?thesis
  proof (cases "\<not> stdin c \<or> \<not> stdout c")
    case True
    then show ?thesis using stage_settle_other[OF s2 q]
      by (simp add: connect_def new_promise_def)
  next
    case False
    let ?s2' = "?s2\<lparr>listeners := listeners ?s2 @ [?q]\<rparr>"
    have s2': "stage D b i p n ?s2'"
      using q by (intro stage_frame[OF s2] phase_frame[OF stage_phase[OF s2]]) auto
    note g = stage_getNextId[OF s2']
    let ?r = "\<lparr>req_id = fst (getNextId ?s2'), req_method = ''initialize'',
               req_params = initialize_params\<rparr>"
    have "stage D b i p n (snd (sendRequest ?r (snd (getNextId ?s2'))))"
      using stage_sendRequest[OF conjunct1[OF g], of ?r] g by simp
    from stage_attach[OF this q] show ?thesis
      using False by (simp add: connect_def new_promise_def split_beta Let_def)
  qed
qed

lemma handleMessage_cases:
  assumes "handleMessage m s = Inr s'"
  shows "s' = s \<or>
    (\<exists>j x out. message_id m = Some j \<and> pendingRequests s j = Some x \<and>
       s' = settle x out (s\<lparr>pendingRequests := (pendingRequests s)(j := None)\<rparr>))"
  using assms
  by (auto simp: handleMessage_def message_id_def split: sum.splits option.splits if_splits)

lemma stage_forget:
  assumes "stage D b i p n s" "j \<noteq> i"
  shows "stage D b i p n (s\<lparr>pendingRequests := (pendingRequests s)(j := None)\<rparr>)"
  using stage_frame[OF assms(1)] phase_forget[OF stage_phase[OF assms(1)] assms(2)] by simp

lemma stage_handleMessage:
  assumes "stage D b i p n s" "handleMessage m s = Inr s'" "b \<or> message_id m \<noteq> Some i"
  shows "stage D b i p n s'"
proof -
  from handleMessage_cases[OF assms(2)] show ?thesis
  proof
    assume "s' = s" then show ?thesis using assms(1) by simp
  next
    assume "\<exists>j x out. message_id m = Some j \<and> pendingRequests s j = Some x \<and>
       s' = settle x out (s\<lparr>pendingRequests := (pendingRequests s)(j := None)\<rparr>)"
    then obtain j x out where j: "message_id m = Some j" "pendingRequests s j = Some x"
      "s' = settle x out (s\<lparr>pendingRequests := (pendingRequests s)(j := None)\<rparr>)" by blast
    have ji: "j \<noteq> i"
    proof (cases b)
      case True
      then have "pendingRequests s i = None"
        using stage_phase[OF assms(1)] by (simp add: phase_def expired_def)
      with j(2) show ?thesis by auto
    next
      case False
      with assms(3) j(1) show ?thesis by auto
    qed
    have "x \<noteq> p" using phase_other_promise[OF stage_phase[OF assms(1)] j(2) ji] .
    from stage_settle_other[OF stage_forget[OF assms(1) ji] this] show ?thesis
      using j(3) by simp
  qed
qed

lemma stage_on_line:
  assumes "stage D b i p n s"
    "b \<or> \<not> (case parse line of None \<Rightarrow> False | Some m \<Rightarrow> message_id m = Some i)"
  shows "stage D b i p n (on_line parse line s)"
proof (cases "parse line")
  case None
  then show ?thesis using stage_reported[OF assms(1)] by (simp add: on_line_def)
next
  case (Some m)
  show ?thesis
  proof (cases "handleMessage m s")
    case (Inl e)
    then show ?thesis using Some stage_reported[OF assms(1)] by (simp add: on_line_def)
  next
    case (Inr s')
    have "b \<or> message_id m \<noteq> Some i" using assms(2) Some by simp
    from stage_handleMessage[OF assms(1) Inr this] show ?thesis
      using Some Inr by (simp add: on_line_def)
  qed
qed

lemma stage_fold_on_line:
  "stage D b i p n s \<Longrightarrow>
   b \<or> \<not> list_ex (\<lambda>line. case parse line of None \<Rightarrow> False | Some m \<Rightarrow> message_id m = Some i) ls \<Longrightarrow>
   stage D b i p n (fold (on_line parse) ls s)"
proof (induction ls arbitrary: s)
  case Nil
  then show ?case by simp
next
  case (Cons l ls)
  have "stage D b i p n (on_line parse l s)"
    using stage_on_line[OF Cons.prems(1), of parse l] Cons.prems(2) by auto
  from Cons.IH[OF this] Cons.prems(2) show ?case by auto
qed

lemma stage_on_data:
  "stage D b i p n s \<Longrightarrow> b \<or> \<not> responds parse i (Data chunk) \<Longrightarrow>
   stage D b i p n (on_data parse chunk s)"
  using stage_fold_on_line[of D b i p n s parse "chunk_lines chunk"]
  by (simp add: on_data_def)

lemma on_timeout_frame:
  "timers (on_timeout ip s) = timers s \<and> clock (on_timeout ip s) = clock s"
  by (cases ip) (simp add: on_timeout_def settle_fields)

lemma fold_on_timeout_frame:
  "timers (fold on_timeout ips s) = timers s \<and> clock (fold on_timeout ips s) = clock s"
  by (induction ips arbitrary: s) (simp_all add: on_timeout_frame)

lemma stage_advance:
  assumes "stage D b i p n s"
  shows "\<exists>b'. (b \<longrightarrow> b') \<and> (D \<le> clock s + d \<longrightarrow> b') \<and> stage D b' i p n (advance d s)"
proof -
  let ?t = "clock s + d"
  let ?s0 = "s\<lparr>clock := ?t, timers := filter (\<lambda>tm. \<not> due ?t tm) (timers s)\<rparr>"
  let ?L = "map snd (filter (due ?t) (timers s))"
  let ?s' = "fold on_timeout ?L ?s0"
  have adv: "advance d s = ?s'" by (simp add: advance_def Let_def)
  have ok: "timers_ok i p s" using assms by (simp add: stage_def)
  have L: "\<forall>ip \<in> set ?L. ip = (i, p) \<or> foreign i p ip"
    using ok by (auto simp: timers_ok_def)
  have ph0: "phase b i p n ?s0"
    by (intro phase_frame[OF stage_phase[OF assms]]) auto
  have fr: "timers ?s' = filter (\<lambda>tm. \<not> due ?t tm) (timers s)" "clock ?s' = ?t"
    using fold_on_timeout_frame[of ?L ?s0] by simp_all
  have ok': "timers_ok i p ?s'"
    using ok unfolding timers_ok_def fr by (auto simp: due_def)
  show ?thesis
  proof (cases b)
    case True
    then have "expired i p n ?s'"
      using fold_on_timeout_expired[OF _ L, of n ?s0] ph0 by (simp add: phase_def)
    then have "stage D True i p n ?s'" using ok' by (simp add: stage_def phase_def)
    then show ?thesis unfolding adv by blast
  next
    case False
    then have aw: "awaiting i p n ?s0" using ph0 by (simp add: phase_def)
    have mem: "(D, i, p) \<in> set (timers s)" using assms False by (simp add: stage_def)
    note F = fold_on_timeout_awaiting[OF aw L]
    show ?thesis
    proof (cases "(i, p) \<in> set ?L")
      case True
      then have "expired i p n ?s'" using F by simp
      then have "stage D True i p n ?s'" using ok' by (simp add: stage_def phase_def)
      then show ?thesis unfolding adv by blast
    next
      case nin: False
      then have aw': "awaiting i p n ?s'" using F by simp
      have notdue: "\<not> due ?t (D, i, p)"
      proof
        assume "due ?t (D, i, p)"
        then have "(D, i, p) \<in> set (filter (due ?t) (timers s))" using mem by simp
        then have "snd (D, i, p) \<in> set ?L" by (metis imageI set_map)
        then show False using nin by simp
      qed
      then have "(D, i, p) \<in> set (timers ?s')" using mem unfolding fr by simp
      then have "stage D False i p n ?s'" using aw' ok' by (simp add: stage_def phase_def)
      moreover have "\<not> D \<le> ?t" using notdue by (simp add: due_def)
      ultimately show ?thesis unfolding adv using False by blast
    qed
  qed
qed

lemma stage_step:
  assumes "stage D b i p n s" "b \<or> \<not> responds parse i e"
  shows "\<exists>b'. (b \<longrightarrow> b') \<and> stage D b' i p n (step parse e s)"
proof (cases e)
  case (Data chunk)
  then show ?thesis using stage_on_data[OF assms(1)] assms(2) by auto
next
  case (Elapse d)
  then show ?thesis using stage_advance[OF assms(1), of d] by auto
next
  case (Invoke tn args)
  then show ?thesis using stage_callTool[OF assms(1)] by auto
next
  case ListTools
  then show ?thesis using stage_listTools[OF assms(1)] by auto
next
  case (Spawn c)
  then show ?thesis using stage_connect[OF assms(1)] by auto
next
  case ChildExit
  then show ?thesis using stage_on_exit[OF assms(1)] by auto
next
  case (ChildError q err)
  then show ?thesis using stage_child_error[OF assms(1)] assms(1) by auto
next
  case Disconnect
  then show ?thesis using stage_disconnect[OF assms(1)] by auto
qed

subsection \<open>The clock\<close>

lemma clock_sendRequest: "clock (snd (sendRequest r s)) = clock s"
  by (simp add: sendRequest_def new_promise_def settle_fields)

lemma clock_attach: "clock (attach x q s) = clock s"
  by (simp add: attach_def react_fields split: option.splits)

lemma clock_on_line: "clock (on_line parse line s) = clock s"
proof (cases "parse line")
  case None
  then show ?thesis by (simp add: on_line_def)
next
  case (Some m)
  show ?thesis
  proof (cases "handleMessage m s")
    case (Inl e)
    then show ?thesis using Some by (simp add: on_line_def)
  next
    case (Inr s')
    then have "clock s' = clock s"
      using handleMessage_cases[OF Inr] by (auto simp: settle_fields)
    then show ?thesis using Some Inr by (simp add: on_line_def)
  qed
qed

lemma clock_fold_on_line: "clock (fold (on_line parse) ls s) = clock s"
  by (induction ls arbitrary: s) (simp_all add: clock_on_line)

lemma clock_step: "clock (step parse e s) = clock s + elapsed [e]"
proof (cases e)
  case (Data chunk)
  then show ?thesis by (simp add: on_data_def clock_fold_on_line)
next
  case (Elapse d)
  then show ?thesis using fold_on_timeout_frame by (simp add: advance_def Let_def)
next
  case (Invoke tn args)
  then show ?thesis by (simp add: callTool_def split_beta clock_sendRequest getNextId_def)
next
  case ListTools
  then show ?thesis by (simp add: listTools_def split_beta clock_sendRequest getNextId_def)
next
  case (Spawn c)
  then show ?thesis
    by (simp add: connect_def split_beta Let_def clock_attach clock_sendRequest getNextId_def
        new_promise_def settle_fields)
next
  case ChildExit
  then show ?thesis by (simp add: on_exit_def)
next
  case (ChildError q err)
  then show ?thesis by (simp add: on_error_def settle_fields)
next
  case Disconnect
  then show ?thesis by (simp add: disconnect_def)
qed

lemma elapsed_Cons: "elapsed (e # es) = elapsed [e] + elapsed es"
  by (cases e) simp_all

lemma clock_run: "clock (run parse es s) = clock s + elapsed es"
proof (induction es arbitrary: s)
  case Nil
  then show ?case by (simp add: run_def)
next
  case (Cons e es)
  have "clock (run parse (e # es) s) = clock (step parse e s) + elapsed es"
    using Cons.IH[of "step parse e s"] by (simp add: run_def)
  then show ?case using clock_step[of parse e s] elapsed_Cons[of e es] by simp
qed

lemma run_append: "run parse (es @ es') s = run parse es' (run parse es s)"
  by (simp add: run_def)

lemma stage_run:
  "stage D b i p n s \<Longrightarrow> b \<or> \<not> list_ex (responds parse i) es \<Longrightarrow>
   \<exists>b'. (b \<longrightarrow> b') \<and> stage D b' i p n (run parse es s)"
proof (induction es arbitrary: s b)
  case Nil
  then show ?case by (auto simp: run_def)
next
  case (Cons e es)
  have "b \<or> \<not> responds parse i e" using Cons.prems(2) by auto
  from stage_step[OF Cons.prems(1) this] obtain b1 where
    b1: "b \<longrightarrow> b1" "stage D b1 i p n (step parse e s)" by blast
  have "b1 \<or> \<not> list_ex (responds parse i) es" using Cons.prems(2) b1(1) by auto
  from Cons.IH[OF b1(2) this] obtain b2 where
    b2: "b1 \<longrightarrow> b2" "stage D b2 i p n (run parse es (step parse e s))" by blast
  show ?case using b1(1) b2 by (auto simp: run_def)
qed

lemma stage_awaiting_clock: "stage D False i p n s \<Longrightarrow> clock s < D"
  by (auto simp: stage_def timers_ok_def)

lemma stage_initial:
  assumes "wf_client s" "has_stdin s" "req_id r = messageId s + 1"
    "sendRequest r (snd (getNextId s)) = (p, s1)"
  shows "stage (clock s + timeout_ms) False (messageId s + 1) p (length (settlements s)) s1"
proof -
  let ?i = "messageId s + 1"
  let ?s' = "s\<lparr>messageId := ?i\<rparr>"
  have up': "has_stdin ?s'" using assms(2) by (simp add: has_stdin_def)
  have g: "snd (getNextId s) = ?s'" by (simp add: getNextId_def)
  have p: "p = promises s" and s1: "s1 =
      s\<lparr>messageId := ?i, promises := promises s + 1,
        pendingRequests := (pendingRequests s)(?i \<mapsto> promises s),
        written := written s @ [r],
        timers := timers s @ [(clock s + timeout_ms, ?i, promises s)]\<rparr>"
    using assms(4) unfolding g sendRequest_up[OF up'] by (auto simp: assms(3))
  have w1: "\<And>j x. pendingRequests s j = Some x \<Longrightarrow> j \<le> messageId s \<and> x < promises s"
    and w2: "\<And>tm. tm \<in> set (timers s) \<Longrightarrow>
          clock s < fst tm \<and> fst (snd tm) \<le> messageId s \<and> snd (snd tm) < promises s"
    and w3: "\<And>x q. reactions s x = Some q \<Longrightarrow> q < promises s"
    and w4: "\<And>q. q \<in> set (listeners s) \<Longrightarrow> q < promises s"
    using assms(1) by (auto simp: wf_client_def)
  have tr: "tracked ?i p (length (settlements s)) s1"
    unfolding tracked_def p s1
    using w1 w3 w4 by (auto simp: less_irrefl dest: w1 w3 w4)
  have aw: "awaiting ?i p (length (settlements s)) s1"
    using tr by (simp add: awaiting_def) (simp add: p s1 settled_since_def)
  have ok: "timers_ok ?i p s1"
    unfolding timers_ok_def p s1
    using w2 by (fastforce simp: foreign_def timeout_ms_def)
  show ?thesis
    using aw ok by (simp add: stage_def phase_def) (simp add: p s1)
qed

subsection \<open>Well-formedness is invariant\<close>

lemma wf_new_client: "wf_client new_client"
  by (simp add: wf_client_def new_client_def)

lemma wf_frame:
  assumes "wf_client s"
    and "messageId s \<le> messageId s'" "promises s \<le> promises s'"
    and "\<forall>j x. pendingRequests s' j = Some x \<longrightarrow>
           pendingRequests s j = Some x \<or> (j \<le> messageId s' \<and> x < promises s')"
    and "\<forall>tm \<in> set (timers s').
           (tm \<in> set (timers s) \<and> clock s' = clock s) \<or>
           (clock s' < fst tm \<and> fst (snd tm) \<le> messageId s' \<and> snd (snd tm) < promises s')"
    and "\<forall>x q. reactions s' x = Some q \<longrightarrow> reactions s x = Some q \<or> q < promises s'"
    and "\<forall>q \<in> set (listeners s'). q \<in> set (listeners s) \<or> q < promises s'"
  shows "wf_client s'"
proof -
  have a: "\<forall>j x. pendingRequests s' j = Some x \<longrightarrow> j \<le> messageId s' \<and> x < promises s'"
  proof (intro allI impI)
    fix j x assume "pendingRequests s' j = Some x"
    then have "pendingRequests s j = Some x \<or> (j \<le> messageId s' \<and> x < promises s')"
      using assms(4) by blast
    then show "j \<le> messageId s' \<and> x < promises s'"
      using assms(1,2,3) by (fastforce simp: wf_client_def)
  qed
  have b: "\<forall>tm \<in> set (timers s').
         clock s' < fst tm \<and> fst (snd tm) \<le> messageId s' \<and> snd (snd tm) < promises s'"
  proof
    fix tm assume "tm \<in> set (timers s')"
    then have "(tm \<in> set (timers s) \<and> clock s' = clock s) \<or>
           (clock s' < fst tm \<and> fst (snd tm) \<le> messageId s' \<and> snd (snd tm) < promises s')"
      using assms(5) by blast
    then show "clock s' < fst tm \<and> fst (snd tm) \<le> messageId s' \<and> snd (snd tm) < promises s'"
      using assms(1,2,3) by (fastforce simp: wf_client_def)
  qed
  have c: "\<forall>x q. reactions s' x = Some q \<longrightarrow> q < promises s'"
  proof (intro allI impI)
    fix x q assume "reactions s' x = Some q"
    then have "reactions s x = Some q \<or> q < promises s'" using assms(6) by blast
    then show "q < promises s'" using assms(1,3) by (fastforce simp: wf_client_def)
  qed
  have d: "\<forall>q \<in> set (listeners s'). q < promises s'"
  proof
    fix q assume "q \<in> set (listeners s')"
    then have "q \<in> set (listeners s) \<or> q < promises s'" using assms(7) by blast
    then show "q < promises s'" using assms(1,3) by (fastforce simp: wf_client_def)
  qed
  show ?thesis unfolding wf_client_def using a b c d by blast
qed

lemma wf_react: "wf_client s \<Longrightarrow> wf_client (react q out s)"
  by (rule wf_frame) (auto simp: react_fields)

lemma wf_settle: "wf_client s \<Longrightarrow> wf_client (settle x out s)"
  by (rule wf_frame) (auto simp: settle_fields split: if_splits)

lemma wf_sendRequest:
  assumes "wf_client s" "req_id r \<le> messageId s"
  shows "wf_client (snd (sendRequest r s))"
proof (cases "has_stdin s")
  case False
  have "wf_client (s\<lparr>promises := promises s + 1\<rparr>)"
    by (rule wf_frame[OF assms(1)]) auto
  from wf_settle[OF this] show ?thesis
    using False by (simp add: sendRequest_def new_promise_def has_stdin_def)
next
  case True
  show ?thesis
    unfolding sendRequest_up[OF True]
    using assms(2) by (intro wf_frame[OF assms(1)]) (auto simp: timeout_ms_def)
qed

lemma wf_getNextId:
  "wf_client s \<Longrightarrow> wf_client (snd (getNextId s)) \<and> fst (getNextId s) \<le> messageId (snd (getNextId s))"
  using wf_frame[of s "s\<lparr>messageId := messageId s + 1\<rparr>"] by (simp add: getNextId_def)

lemma wf_attach:
  assumes "wf_client s" "q < promises s"
  shows "wf_client (attach x q s)"
proof (cases "map_of (settlements s) x")
  case None
  have "wf_client (s\<lparr>reactions := (reactions s)(x \<mapsto> q)\<rparr>)"
    using assms(2) by (intro wf_frame[OF assms(1)]) auto
  then show ?thesis using None by (simp add: attach_def)
next
  case (Some out)
  then show ?thesis using wf_react[OF assms(1)] by (simp add: attach_def)
qed

lemma promises_sendRequest: "promises s < promises (snd (sendRequest r s))"
  by (simp add: sendRequest_def new_promise_def settle_fields)

lemma wf_connect:
  assumes "wf_client s"
  shows "wf_client (snd (connect c s))"
proof -
  let ?q = "promises s"
  let ?s2 = "s\<lparr>promises := promises s + 1, process := Some c\<rparr>"
  have s2: "wf_client ?s2" by (rule wf_frame[OF assms]) auto
  show ?thesis
  proof (cases "\<not> stdin c \<or> \<not> stdout c")
    case True
    then show ?thesis using wf_settle[OF s2] by (simp add: connect_def new_promise_def)
  next
    case False
    let ?s2' = "?s2\<lparr>listeners := listeners ?s2 @ [?q]\<rparr>"
    have s2': "wf_client ?s2'" by (rule wf_frame[OF s2]) auto
    note g = wf_getNextId[OF s2']
    let ?r = "\<lparr>req_id = fst (getNextId ?s2'), req_method = ''initialize'',
               req_params = initialize_params\<rparr>"
    let ?s4 = "snd (sendRequest ?r (snd (getNextId ?s2')))"
    have s4: "wf_client ?s4" using wf_sendRequest[OF conjunct1[OF g], of ?r] g by simp
    have "?q < promises ?s4"
      using promises_sendRequest[of "snd (getNextId ?s2')" ?r] by (simp add: getNextId_def)
    from wf_attach[OF s4 this] show ?thesis
      using False by (simp add: connect_def new_promise_def split_beta Let_def)
  qed
qed

lemma wf_on_timeout: "wf_client s \<Longrightarrow> wf_client (on_timeout ip s)"
proof (cases ip)
  case (Pair j x)
  assume w: "wf_client s"
  have "wf_client (s\<lparr>pendingRequests := (pendingRequests s)(j := None)\<rparr>)"
    by (rule wf_frame[OF w]) (auto split: if_splits)
  from wf_settle[OF this] w show ?thesis by (simp add: on_timeout_def Pair)
qed

lemma wf_fold_on_timeout: "wf_client s \<Longrightarrow> wf_client (fold on_timeout ips s)"
  by (induction ips arbitrary: s) (simp_all add: wf_on_timeout)

lemma wf_advance:
  assumes "wf_client s"
  shows "wf_client (advance d s)"
proof -
  have "wf_client (s\<lparr>clock := clock s + d,
      timers := filter (\<lambda>tm. \<not> due (clock s + d) tm) (timers s)\<rparr>)"
    using assms unfolding wf_client_def by (auto simp: due_def)
  from wf_fold_on_timeout[OF this] show ?thesis by (simp add: advance_def Let_def)
qed

lemma wf_on_line:
  assumes "wf_client s"
  shows "wf_client (on_line parse line s)"
proof -
  have rep: "\<And>x. wf_client (s\<lparr>reported := x\<rparr>)" by (rule wf_frame[OF assms]) auto
  show ?thesis
  proof (cases "parse line")
    case None
    then show ?thesis using rep by (simp add: on_line_def)
  next
    case (Some m)
    show ?thesis
    proof (cases "handleMessage m s")
      case (Inl e)
      then show ?thesis using Some rep by (simp add: on_line_def)
    next
      case (Inr s')
      have "wf_client s'"
        using handleMessage_cases[OF Inr]
      proof
        assume "s' = s" then show ?thesis using assms by simp
      next
        assume "\<exists>j x out. message_id m = Some j \<and> pendingRequests s j = Some x \<and>
          s' = settle x out (s\<lparr>pendingRequests := (pendingRequests s)(j := None)\<rparr>)"
        then obtain j x out where
          s': "s' = settle x out (s\<lparr>pendingRequests := (pendingRequests s)(j := None)\<rparr>)" by blast
        have "wf_client (s\<lparr>pendingRequests := (pendingRequests s)(j := None)\<rparr>)"
          by (rule wf_frame[OF assms]) (auto split: if_splits)
        from wf_settle[OF this] show ?thesis using s' by simp
      qed
      then show ?thesis using Some Inr by (simp add: on_line_def)
    qed
  qed
qed

lemma wf_fold_on_line: "wf_client s \<Longrightarrow> wf_client (fold (on_line parse) ls s)"
  by (induction ls arbitrary: s) (simp_all add: wf_on_line)

lemma wf_step:
  assumes "wf_client s"
  shows "wf_client (step parse e s)"
proof (cases e)
  case (Data chunk)
  then show ?thesis using wf_fold_on_line[OF assms] by (simp add: on_data_def)
next
  case (Elapse d)
  then show ?thesis using wf_advance[OF assms] by simp
next
  case (Invoke tn args)
  then show ?thesis
    using wf_getNextId[OF assms] wf_sendRequest by (simp add: callTool_def split_beta)
next
  case ListTools
  then show ?thesis
    using wf_getNextId[OF assms] wf_sendRequest by (simp add: listTools_def split_beta)
next
  case (Spawn c)
  then show ?thesis using wf_connect[OF assms] by simp
next
  case ChildExit
  have "wf_client (on_exit s)" by (rule wf_frame[OF assms]) (auto simp: on_exit_def)
  then show ?thesis using ChildExit by simp
next
  case (ChildError q err)
  then show ?thesis using wf_settle[OF assms] assms by (simp add: on_error_def)
next
  case Disconnect
  have "wf_client (disconnect s)" by (rule wf_frame[OF assms]) (auto simp: disconnect_def)
  then show ?thesis using Disconnect by simp
qed

lemma wf_client_run: "wf_client s \<Longrightarrow> wf_client (run parse es s)"
  unfolding run_def by (induction es arbitrary: s) (simp_all add: wf_step)

lemma handleMessage_not_pending:
  "message_id m = Some i \<Longrightarrow> pendingRequests s i = None \<Longrightarrow> handleMessage m s = Inr s"
  by (auto simp: handleMessage_def message_id_def split: sum.splits if_splits)

text \<open>
  Claim C2. Let a client have reached any state from \<open>new_client\<close> and have a live
  child, and let a request be sent with the next id (as \<open>callTool\<close>, \<open>listTools\<close>
  and \<open>connect\<close> do). If the events \<open>pre\<close> that follow carry no message with the
  request's id and at least \<open>timeout_ms = 30000\<close> milliseconds pass during them, then
  after \<open>pre\<close> and whatever events \<open>post\<close> come later: the request's promise has
  been settled exactly once, rejected with \<open>Request <id> timed out\<close>; its id is
  not in \<open>pendingRequests\<close>; and a message carrying that id is ignored, the client
  is left as it was. (The sources reject with a plain \<open>Error\<close> carrying this message;
  they define no error classes.)
\<close>

theorem request_timeout:
  assumes reach: "s = run parse es0 new_client"
    and up: "has_stdin s"
    and sent: "req_id r = fst (getNextId s)" "sendRequest r (snd (getNextId s)) = (p, s1)"
    and quiet: "\<not> list_ex (responds parse (req_id r)) pre"
    and late: "timeout_ms \<le> elapsed pre"
  shows "settled_since (length (settlements s)) p (run parse (pre @ post) s1) =
           [Rejected (''Request '' @ show_nat (req_id r) @ '' timed out'')] \<and>
         pendingRequests (run parse (pre @ post) s1) (req_id r) = None \<and>
         (\<forall>m. message_id m = Some (req_id r) \<longrightarrow>
            handleMessage m (run parse (pre @ post) s1) = Inr (run parse (pre @ post) s1))"
proof -
  let ?i = "messageId s + 1"
  let ?D = "clock s + timeout_ms"
  let ?n = "length (settlements s)"
  have i: "req_id r = ?i" using sent(1) by (simp add: getNextId_def)
  have wf: "wf_client s" unfolding reach by (rule wf_client_run[OF wf_new_client])
  note st0 = stage_initial[OF wf up i sent(2)]
  have c1: "clock s1 = clock s" using sent(2) clock_sendRequest[of r "snd (getNextId s)"]
    by (simp add: getNextId_def)
  from stage_run[OF st0, of parse pre] quiet i obtain b where
    b: "stage ?D b ?i p ?n (run parse pre s1)" by auto
  have "?D \<le> clock (run parse pre s1)" using late c1 by (simp add: clock_run)
  then have "b" using stage_awaiting_clock[of ?D ?i p ?n "run parse pre s1"] b by (cases b) auto
  with b have "stage ?D True ?i p ?n (run parse pre s1)" by simp
  from stage_run[OF this, of parse post] have "stage ?D True ?i p ?n (run parse (pre @ post) s1)"
    by (auto simp: run_append)
  then have e: "expired ?i p ?n (run parse (pre @ post) s1)" by (simp add: stage_def phase_def)
  then show ?thesis
    using handleMessage_not_pending unfolding i
    by (simp add: expired_def timeout_error_def)
qed

text \<open>
  After the handshake request of \<open>connect\<close>, a request with id 2 is sent; 30000
  milliseconds pass, then a response with id 2 arrives.
\<close>

theorem request_timeout_witness:
  "settled_since 0
     (fst (sendRequest \<lparr>req_id = 2, req_method = ''tools/list'', req_params = Undefined\<rparr>
        (snd (getNextId (run sample_parse [Spawn pipes] new_client)))))
     (run sample_parse ([Elapse 30000] @ [Data (sample_line @ [LF])])
       (snd (sendRequest \<lparr>req_id = 2, req_method = ''tools/list'', req_params = Undefined\<rparr>
         (snd (getNextId (run sample_parse [Spawn pipes] new_client))))))
   = [Rejected ''Request 2 timed out'']"
proof -
  let ?s = "run sample_parse [Spawn pipes] new_client"
  let ?r = "\<lparr>req_id = 2, req_method = ''tools/list'', req_params = Undefined\<rparr>"
  have s: "?s = \<lparr>process = Some pipes, messageId = 1, pendingRequests = [1 \<mapsto> 1],
      connected = False,
      written = [\<lparr>req_id = 1, req_method = ''initialize'', req_params = initialize_params\<rparr>],
      timers = [(30000, 1, 1)], clock = 0, promises = 2, settlements = [],
      reactions = [1 \<mapsto> 0], listeners = [0], reported = []\<rparr>"
    by (simp add: run_def connect_def new_client_def new_promise_def pipes_def getNextId_def
        sendRequest_def has_stdin_def attach_def timeout_ms_def)
  have up: "has_stdin ?s" unfolding s by (simp add: has_stdin_def pipes_def)
  have id: "req_id ?r = fst (getNextId ?s)" unfolding s by (simp add: getNextId_def)
  have sent: "sendRequest ?r (snd (getNextId ?s)) =
      (fst (sendRequest ?r (snd (getNextId ?s))), snd (sendRequest ?r (snd (getNextId ?s))))"
    by simp
  have quiet: "\<not> list_ex (responds sample_parse (req_id ?r)) [Elapse 30000]" by simp
  have late: "timeout_ms \<le> elapsed [Elapse 30000]" by (simp add: timeout_ms_def)
  have n: "length (settlements ?s) = 0" unfolding s by simp
  from request_timeout[OF refl up id sent quiet late, of "[Data (sample_line @ [LF])]"]
  show ?thesis unfolding n by (simp add: digit_def)
qed


subsection \<open>Framing of the inbound stream\<close>

lemma split_lf_no_lf: "LF \<notin> set f \<Longrightarrow> split_lf f = [f]"
  by (induction f) auto

lemma split_lf_frame: "LF \<notin> set f \<Longrightarrow> split_lf (f @ LF # rest) = f # split_lf rest"
  by (induction f) auto

lemma trim_Nil: "trim [] = []"
  by (simp add: trim_def)

lemma chunk_lines_frames:
  "\<forall>f \<in> set frames. LF \<notin> set f \<and> trim f \<noteq> [] \<Longrightarrow>
   chunk_lines (concat (map (\<lambda>f. f @ [LF]) frames)) = frames"
proof (induction frames)
  case Nil
  then show ?case by (simp add: chunk_lines_def trim_Nil)
next
  case (Cons f frames)
  have "split_lf (concat (map (\<lambda>f. f @ [LF]) (f # frames))) =
        f # split_lf (concat (map (\<lambda>f. f @ [LF]) frames))"
    using Cons.prems split_lf_frame[of f] by simp
  then show ?case using Cons by (simp add: chunk_lines_def)
qed

lemma chunk_lines_fragment: "LF \<notin> set a \<Longrightarrow> trim a \<noteq> [] \<Longrightarrow> chunk_lines a = [a]"
  by (simp add: chunk_lines_def split_lf_no_lf)

lemma dropWhile_all: "(\<forall>x \<in> set (dropWhile P xs). P x) \<longleftrightarrow> (\<forall>x \<in> set xs. P x)"
  by (induction xs) auto

lemma trim_empty_iff: "trim s = [] \<longleftrightarrow> (\<forall>c \<in> set s. is_space c)"
  by (simp add: trim_def dropWhile_eq_Nil_conv dropWhile_all)

text \<open>
  Claim C3, as amended. The listener splits each chunk it reads on its own and keeps
  nothing from one read to the next. A read that consists of whole frames, each ended
  by a line feed, handles every frame as one line, in order; in particular a frame
  \<open>a @ b\<close> read whole is handled as the one line \<open>a @ b\<close>. The same frame read
  in two parts, \<open>a\<close> and then \<open>b\<close> with the line feed, is handled as the two lines
  \<open>a\<close> and \<open>b\<close>, each parsed by itself.
\<close>

theorem reads_split_independently:
  assumes "\<forall>f \<in> set frames. LF \<notin> set f \<and> trim f \<noteq> []"
    and "LF \<notin> set a" "trim a \<noteq> []" "LF \<notin> set b" "trim b \<noteq> []"
  shows "on_data parse (concat (map (\<lambda>f. f @ [LF]) frames)) s = fold (on_line parse) frames s \<and>
         on_data parse (a @ b @ [LF]) s = on_line parse (a @ b) s \<and>
         on_data parse (b @ [LF]) (on_data parse a s) = on_line parse b (on_line parse a s)"
proof -
  have 1: "on_data parse (concat (map (\<lambda>f. f @ [LF]) frames)) s = fold (on_line parse) frames s"
    using chunk_lines_frames[OF assms(1)] by (simp add: on_data_def)
  have "trim (a @ b) \<noteq> []" using assms(3) by (auto simp: trim_empty_iff)
  then have "chunk_lines (a @ b @ [LF]) = [a @ b]"
    using chunk_lines_frames[of "[a @ b]"] assms(2,4) by simp
  then have 2: "on_data parse (a @ b @ [LF]) s = on_line parse (a @ b) s"
    by (simp add: on_data_def)
  have "chunk_lines (b @ [LF]) = [b]"
    using chunk_lines_frames[of "[b]"] assms(4,5) by simp
  then have 3: "on_data parse (b @ [LF]) (on_data parse a s) = on_line parse b (on_line parse a s)"
    using chunk_lines_fragment[OF assms(2,3)] by (simp add: on_data_def)
  show ?thesis using 1 2 3 by blast
qed

lemma awaiting_reply_fields:
  "pendingRequests awaiting_reply 2 = Some 2" "reported awaiting_reply = []"
  "connected awaiting_reply"
  "settlements awaiting_reply = [(1, Resolved (JObj [])), (0, Resolved Undefined)]"
  "reactions awaiting_reply 2 = None"
  by (simp_all add: awaiting_reply_def callTool_def connect_def deliver_def on_message_def
     handleMessage_def response_outcome_def success_response_def new_client_def new_promise_def pipes_def
     getNextId_def sendRequest_def has_stdin_def attach_def timeout_ms_def settle_def react_def)

lemma fragments:
  "sample_parse fragment1 = None" "sample_parse fragment2 = None"
  "chunk_lines fragment1 = [fragment1]" "chunk_lines (fragment2 @ [LF]) = [fragment2]"
  "chunk_lines (sample_line @ [LF]) = [sample_line]"
proof -
  show "sample_parse fragment1 = None" "sample_parse fragment2 = None"
    by (simp_all add: sample_parse_def fragment1_def fragment2_def sample_line_def)
  show "chunk_lines fragment1 = [fragment1]"
    by (rule chunk_lines_fragment)
       (simp_all add: fragment1_def LF_def trim_empty_iff is_space_def)
  show "chunk_lines (fragment2 @ [LF]) = [fragment2]"
    using chunk_lines_frames[of "[fragment2]"]
    by (simp add: fragment2_def LF_def trim_empty_iff is_space_def)
  show "chunk_lines (sample_line @ [LF]) = [sample_line]"
    using chunk_lines_frames[of "[sample_line]"]
    by (simp add: sample_line_def LF_def trim_empty_iff is_space_def)
qed

theorem reads_split_independently_witness:
  "on_data sample_parse (fragment2 @ [LF]) (on_data sample_parse fragment1 awaiting_reply) =
     on_line sample_parse fragment2 (on_line sample_parse fragment1 awaiting_reply) \<and>
   on_data sample_parse (sample_line @ [LF]) awaiting_reply =
     on_line sample_parse sample_line awaiting_reply"
proof -
  have a: "LF \<notin> set fragment1" "trim fragment1 \<noteq> []"
    by (simp_all add: fragment1_def LF_def trim_empty_iff is_space_def)
  have b: "LF \<notin> set fragment2" "trim fragment2 \<noteq> []"
    by (simp_all add: fragment2_def LF_def trim_empty_iff is_space_def)
  have f: "\<forall>f \<in> set [sample_line]. LF \<notin> set f \<and> trim f \<noteq> []"
    by (simp add: sample_line_def LF_def trim_empty_iff is_space_def)
  from reads_split_independently[OF f a b, of sample_parse awaiting_reply]
  show ?thesis by simp
qed

text \<open>
  Claim C3 as stated fails. The sample response line arrives in two reads while its
  request is pending: the lines handed to the parser are the two fragments, both are
  reported as unparsable, and the request stays pending. Read whole, the same line
  settles the request and nothing is reported.
\<close>

theorem split_frame_counterexample:
  "fragment1 @ fragment2 = sample_line \<and>
   chunk_lines fragment1 @ chunk_lines (fragment2 @ [LF]) = [fragment1, fragment2] \<and>
   reported (run sample_parse [Data fragment1, Data (fragment2 @ [LF])] awaiting_reply)
     = [fragment1, fragment2] \<and>
   pendingRequests (run sample_parse [Data fragment1, Data (fragment2 @ [LF])] awaiting_reply) 2
     = Some 2 \<and>
   reported (run sample_parse [Data (sample_line @ [LF])] awaiting_reply) = [] \<and>
   pendingRequests (run sample_parse [Data (sample_line @ [LF])] awaiting_reply) 2 = None"
proof -
  have split: "run sample_parse [Data fragment1, Data (fragment2 @ [LF])] awaiting_reply =
      awaiting_reply\<lparr>reported := [fragment1, fragment2]\<rparr>"
    by (simp add: run_def on_data_def on_line_def fragments awaiting_reply_fields)
  have whole: "run sample_parse [Data (sample_line @ [LF])] awaiting_reply =
      settle 2 (Resolved (JObj []))
        (awaiting_reply\<lparr>pendingRequests := (pendingRequests awaiting_reply)(2 := None)\<rparr>)"
    by (simp add: run_def on_data_def on_line_def fragments sample_parse_def handleMessage_def
        success_response_def response_outcome_def awaiting_reply_fields)
  have a: "fragment1 @ fragment2 = sample_line"
    by (simp add: fragment1_def fragment2_def sample_line_def)
  show ?thesis
    unfolding split whole
    using a by (simp add: fragments awaiting_reply_fields settle_def Let_def)
qed

subsection \<open>Errors and exit of the child process\<close>

lemma map_of_append_fresh:
  "map_of xs k = None \<Longrightarrow> map_of (xs @ (k, v) # ys) k = Some v"
  by (simp add: map_add_def)

text \<open>
  Claim C4, as amended. An \<open>error\<close> event of the child while the client is not
  connected rejects the connect promise with that error (if it is not settled yet);
  once the client is connected the event changes nothing. An \<open>exit\<close> of the child
  marks the client disconnected and does nothing else: no promise is settled and the
  pending calls stay pending (they fail when their timers fire: \<open>ChildExit\<close> is one
  of the events of the runs considered for timeouts above). \<open>disconnect()\<close> likewise settles
  nothing and leaves the pending calls in place.
\<close>

theorem child_error_and_exit:
  "(\<not> connected s \<longrightarrow> q \<in> set (listeners s) \<longrightarrow> promise_state s q = None \<longrightarrow>
      promise_state (step parse (ChildError q err) s) q = Some (Rejected err)) \<and>
   (connected s \<longrightarrow> step parse (ChildError q err) s = s) \<and>
   step parse ChildExit s = s\<lparr>connected := False\<rparr> \<and>
   connected (disconnect s) = False \<and>
   pendingRequests (disconnect s) = pendingRequests s \<and>
   settlements (disconnect s) = settlements s"
proof -
  have "promise_state (step parse (ChildError q err) s) q = Some (Rejected err)"
    if "\<not> connected s" "q \<in> set (listeners s)" "promise_state s q = None"
  proof -
    have "settlements (settle q (Rejected err) s) =
        settlements s @ (q, Rejected err) #
          (case reactions s q of None \<Rightarrow> [] | Some q' \<Rightarrow> [(q', Rejected err)])"
      by (simp add: settle_def Let_def react_def split: option.splits)
    then show ?thesis
      using that map_of_append_fresh[of "settlements s" q]
      by (simp add: promise_state_def on_error_def)
  qed
  then show ?thesis
    by (simp add: on_error_def on_exit_def disconnect_def)
qed

theorem child_error_and_exit_witness:
  "promise_state (step sample_parse (ChildError 0 ''spawn ENOENT'') (snd (connect pipes new_client))) 0
     = Some (Rejected ''spawn ENOENT'')"
proof -
  let ?s = "snd (connect pipes new_client)"
  have f: "\<not> connected ?s" "0 \<in> set (listeners ?s)" "promise_state ?s 0 = None"
    by (simp_all add: connect_def new_client_def new_promise_def pipes_def getNextId_def
        sendRequest_def has_stdin_def attach_def promise_state_def)
  from child_error_and_exit[of ?s 0 sample_parse "''spawn ENOENT''"] f show ?thesis by blast
qed

text \<open>
  Claim C4 as stated fails. The child exits while the client is connected and a tool
  call is pending: the call is still pending afterwards and its promise unsettled. The
  child exits before the handshake response: the connect promise is not settled.
\<close>

theorem exit_fails_nothing_counterexample:
  "connected awaiting_reply \<and>
   pendingRequests awaiting_reply 2 = Some 2 \<and>
   \<not> connected (step sample_parse ChildExit awaiting_reply) \<and>
   pendingRequests (step sample_parse ChildExit awaiting_reply) 2 = Some 2 \<and>
   promise_state (step sample_parse ChildExit awaiting_reply) 2 = None \<and>
   promise_state (step sample_parse ChildExit (snd (connect pipes new_client))) 0 = None"
proof -
  have "promise_state (step sample_parse ChildExit (snd (connect pipes new_client))) 0 = None"
    by (simp add: connect_def new_client_def new_promise_def pipes_def getNextId_def
        sendRequest_def has_stdin_def attach_def promise_state_def on_exit_def)
  then show ?thesis
    by (simp add: awaiting_reply_fields on_exit_def promise_state_def)
qed

section \<open>Properties of the tool bridge\<close>

subsection \<open>The interaction history\<close>

lemma generateToolUsageInfo_frame:
  "generateToolUsageInfo W tool b = (r, b1) \<Longrightarrow>
   trainingData b1 = trainingData b \<and> toolCache b1 = toolCache b \<and>
   usageExamples b1 = usageExamples b \<and> toolCalls b1 = toolCalls b"
  by (auto simp: generateToolUsageInfo_def ask_def split: sum.splits)

lemma getToolUsage_frame:
  "getToolUsage W tn b = (r, b1) \<Longrightarrow>
   trainingData b1 = trainingData b \<and> toolCache b1 = toolCache b \<and> toolCalls b1 = toolCalls b"
  by (auto simp: getToolUsage_def split: option.splits prod.splits sum.splits
      dest: generateToolUsageInfo_frame)

lemma cacheAvailableTools_frame:
  "cacheAvailableTools listed b = (r, b1) \<Longrightarrow>
   trainingData b1 = trainingData b \<and> usageExamples b1 = usageExamples b \<and>
   toolCalls b1 = toolCalls b \<and> prompts b1 = prompts b"
  by (auto simp: cacheAvailableTools_def split: sum.splits)

lemma loop_frame:
  "generateToolUsageExamples_loop W entries b = (r, b1) \<Longrightarrow>
   trainingData b1 = trainingData b \<and> toolCache b1 = toolCache b \<and> toolCalls b1 = toolCalls b"
proof (induction W entries b arbitrary: r b1 rule: generateToolUsageExamples_loop.induct)
  case (1 W b)
  then show ?case by simp
next
  case (2 W tn tool rest b)
  show ?case
  proof (cases "usageExamples b tn \<noteq> None")
    case True
    then show ?thesis using 2(1)[OF True] 2(3) by simp
  next
    case False
    obtain r' b' where g: "generateToolUsageInfo W tool b = (r', b')" by force
    note f = generateToolUsageInfo_frame[OF g]
    show ?thesis
    proof (cases r')
      case (Inl e)
      then show ?thesis using False g f 2(3) by auto
    next
      case (Inr u)
      have "generateToolUsageExamples_loop W rest
              (b'\<lparr>usageExamples := (usageExamples b')(tn \<mapsto> u)\<rparr>) = (r, b1)"
        using 2(3) False g Inr by simp
      from 2(2)[OF False g[symmetric] Inr this] f show ?thesis by simp
    qed
  qed
qed

lemma initialize_frame:
  "initialize W connecting listed b = (r, b1) \<Longrightarrow>
   trainingData b1 = trainingData b \<and> toolCalls b1 = toolCalls b"
  by (auto simp: initialize_def generateToolUsageExamples_def
      split: option.splits prod.splits dest!: loop_frame cacheAvailableTools_frame)

lemma discoverTools_frame:
  "discoverTools listed b = (r, b1) \<Longrightarrow>
   trainingData b1 = trainingData b \<and> usageExamples b1 = usageExamples b \<and>
   toolCalls b1 = toolCalls b \<and> prompts b1 = prompts b"
  by (auto simp: discoverTools_def Let_def split: option.splits prod.splits if_splits
      dest!: cacheAvailableTools_frame)

lemma optimizeToolRequest_frame:
  "optimizeToolRequest W request b = (r, b1) \<Longrightarrow>
   trainingData b1 = trainingData b \<and> toolCache b1 = toolCache b \<and>
   usageExamples b1 = usageExamples b \<and> toolCalls b1 = toolCalls b \<and> toolName r = toolName request"
  by (auto simp: optimizeToolRequest_def ask_def split: option.splits prod.splits sum.splits)

lemma executeToolCall_frame:
  "executeToolCall W reply request b = (r, b1) \<Longrightarrow>
   trainingData b1 = trainingData b \<and> toolCache b1 = toolCache b \<and>
   usageExamples b1 = usageExamples b"
  by (auto simp: executeToolCall_def executeToolCall_try_def Let_def
      split: prod.splits sum.splits dest!: optimizeToolRequest_frame)

lemma trainingData_trainOnInteraction:
  "trainingData (trainOnInteraction intent call res fb now b) =
     drop (length (trainingData b) + 1 - 1000)
       (trainingData b @ [the (entry_of (TrainOnInteraction intent call res fb now))])"
  by (simp add: trainOnInteraction_def Let_def)

lemma useTool_trainingData:
  "\<exists>e. feedback e = Neutral \<and> toolName (toolCall e) = tn \<and>
     trainingData (snd (useTool W reply tn params ctx now b)) =
       drop (length (trainingData b) + 1 - 1000) (trainingData b @ [e])"
proof -
  obtain res b1 where e: "executeToolCall W reply
      \<lparr>toolName = tn, parameters = params, requestContext = ctx, userIntent = ctx\<rparr> b = (res, b1)"
    by force
  have t: "trainingData b1 = trainingData b" using executeToolCall_frame[OF e] by simp
  show ?thesis
    unfolding useTool_def Let_def e
    by (simp add: trainingData_trainOnInteraction t)
qed

lemma length_perform:
  assumes "length (trainingData b) \<le> 1000"
  shows "length (trainingData (perform W op b)) \<le> 1000"
proof (cases op)
  case (Initialize c l)
  obtain r b1 where e: "initialize W c l b = (r, b1)" by force
  from initialize_frame[OF e] show ?thesis using assms Initialize e by simp
next
  case (DiscoverTools l)
  obtain r b1 where e: "discoverTools l b = (r, b1)" by force
  from discoverTools_frame[OF e] show ?thesis using assms DiscoverTools e by simp
next
  case (GetToolUsage tn)
  obtain r b1 where e: "getToolUsage W tn b = (r, b1)" by force
  from getToolUsage_frame[OF e] show ?thesis using assms GetToolUsage e by simp
next
  case (ExecuteToolCall reply request)
  obtain r b1 where e: "executeToolCall W reply request b = (r, b1)" by force
  from executeToolCall_frame[OF e] show ?thesis using assms ExecuteToolCall e by simp
next
  case (TrainOnInteraction intent call res fb now)
  then show ?thesis using assms by (simp add: trainingData_trainOnInteraction)
next
  case (UseTool reply tn params ctx now)
  obtain e where "trainingData (snd (useTool W reply tn params ctx now b)) =
       drop (length (trainingData b) + 1 - 1000) (trainingData b @ [e])"
    using useTool_trainingData[of tn W reply params ctx now b] by blast
  then have "length (trainingData (snd (useTool W reply tn params ctx now b))) \<le> 1000"
    using assms by simp
  then show ?thesis using UseTool by simp
qed

lemma length_performs:
  "length (trainingData b) \<le> 1000 \<Longrightarrow> length (trainingData (performs W ops b)) \<le> 1000"
proof (induction ops arbitrary: b)
  case Nil
  then show ?case by (simp add: performs_def)
next
  case (Cons op ops)
  have "length (trainingData (perform W op b)) \<le> 1000"
    using Cons.prems by (rule length_perform)
  from Cons.IH[OF this] show ?case by (simp add: performs_def)
qed

lemma trains_fifo:
  "list_all is_train ops \<Longrightarrow> length (trainingData b) \<le> 1000 \<Longrightarrow>
   trainingData (performs W ops b) =
     drop (length (trainingData b) + length ops - 1000)
       (trainingData b @ map (\<lambda>op. the (entry_of op)) ops)"
proof (induction ops arbitrary: b)
  case Nil
  then show ?case by (simp add: performs_def)
next
  case (Cons op ops)
  then obtain intent call res fb now where op: "op = TrainOnInteraction intent call res fb now"
    by (cases op) auto
  let ?e = "the (entry_of op)"
  let ?b' = "perform W op b"
  let ?k = "length (trainingData b) + 1 - 1000"
  have td': "trainingData ?b' = drop ?k (trainingData b @ [?e])"
    using op by (simp add: trainingData_trainOnInteraction)
  have len': "length (trainingData ?b') \<le> 1000" using Cons.prems(2) td' by simp
  have "trainingData (performs W (op # ops) b) = trainingData (performs W ops ?b')"
    by (simp add: performs_def)
  also have "\<dots> = drop (length (trainingData ?b') + length ops - 1000)
       (trainingData ?b' @ map (\<lambda>op. the (entry_of op)) ops)"
    using Cons.IH[OF _ len'] Cons.prems(1) by simp
  also have "\<dots> = drop (length (trainingData b) + length (op # ops) - 1000)
       (trainingData b @ map (\<lambda>op. the (entry_of op)) (op # ops))"
  proof (cases "length (trainingData b) < 1000")
    case True
    then show ?thesis unfolding td' by simp
  next
    case False
    then have l: "length (trainingData b) = 1000" using Cons.prems(2) by simp
    then show ?thesis unfolding td' by simp
  qed
  finally show ?case .
qed

text \<open>
  Claim C9. After every sequence of operations on a new bridge, the history holds at
  most 1000 records. After a sequence of \<open>trainOnInteraction\<close> calls it holds the
  records of the last 1000 calls, in the order of the calls; so after 1001 calls the
  record of the first call is gone (its place, and the record itself when the records
  differ from one another) and the records of the other 1000 remain in insertion order.
\<close>

theorem history_bounded_fifo:
  "length (trainingData (performs W ops new_bridge)) \<le> 1000 \<and>
   (list_all is_train ops \<longrightarrow>
      trainingData (performs W ops new_bridge) =
        drop (length ops - 1000) (map (\<lambda>op. the (entry_of op)) ops)) \<and>
   (list_all is_train ops \<longrightarrow> length ops = 1001 \<longrightarrow>
      trainingData (performs W ops new_bridge) = tl (map (\<lambda>op. the (entry_of op)) ops) \<and>
      (distinct (map entry_of ops) \<longrightarrow>
         the (entry_of (hd ops)) \<notin> set (trainingData (performs W ops new_bridge))))"
proof -
  have e: "length (trainingData new_bridge) \<le> 1000" "trainingData new_bridge = []"
    by (simp_all add: new_bridge_def)
  have a: "length (trainingData (performs W ops new_bridge)) \<le> 1000"
    using length_performs[OF e(1)] .
  have b: "trainingData (performs W ops new_bridge) =
        drop (length ops - 1000) (map (\<lambda>op. the (entry_of op)) ops)"
    if "list_all is_train ops"
    using trains_fifo[OF that e(1), of W] e(2) by simp
  have c: "trainingData (performs W ops new_bridge) = tl (map (\<lambda>op. the (entry_of op)) ops) \<and>
      (distinct (map entry_of ops) \<longrightarrow>
         the (entry_of (hd ops)) \<notin> set (trainingData (performs W ops new_bridge)))"
    if t: "list_all is_train ops" and l: "length ops = 1001"
  proof -
    obtain op rest where ops: "ops = op # rest" using l by (cases ops) auto
    have td: "trainingData (performs W ops new_bridge) = map (\<lambda>op. the (entry_of op)) rest"
      using b[OF t] l ops by simp
    have some: "\<And>x. x \<in> set ops \<Longrightarrow> entry_of x = Some (the (entry_of x))"
    proof -
      fix x assume "x \<in> set ops"
      then have "is_train x" using t by (simp add: list_all_iff)
      then show "entry_of x = Some (the (entry_of x))" by (cases x) auto
    qed
    have "the (entry_of op) \<notin> set (map (\<lambda>op. the (entry_of op)) rest)"
      if d: "distinct (map entry_of ops)"
    proof
      assume "the (entry_of op) \<in> set (map (\<lambda>op. the (entry_of op)) rest)"
      then obtain x where x: "x \<in> set rest" "the (entry_of x) = the (entry_of op)" by auto
      then have "entry_of x = entry_of op" using some[of x] some[of op] ops by simp
      then have "entry_of op \<in> set (map entry_of rest)" using x(1) by (metis imageI set_map)
      then show False using d ops by simp
    qed
    then show ?thesis using td ops by simp
  qed
  show ?thesis using a b c by blast
qed

text \<open>1001 interactions are recorded, the one recorded at time 0 first.\<close>

theorem history_bounded_fifo_witness:
  "length (trainingData (performs mock_world (map sample_train [0..<1001]) new_bridge)) = 1000 \<and>
   timestamp (hd (trainingData (performs mock_world (map sample_train [0..<1001]) new_bridge))) = 1 \<and>
   the (entry_of (sample_train 0)) \<notin>
     set (trainingData (performs mock_world (map sample_train [0..<1001]) new_bridge))"
proof -
  let ?ops = "map sample_train [0..<1001]"
  let ?g = "\<lambda>op. the (entry_of op)"
  have t: "list_all is_train ?ops"
    unfolding list_all_iff
  proof
    fix x assume "x \<in> set ?ops"
    then obtain k where "x = sample_train k" unfolding set_map by blast
    then show "is_train x" by (simp add: sample_train_def)
  qed
  have l: "length ?ops = 1001" by (simp only: length_map length_upt diff_zero)
  have "inj_on (\<lambda>k. entry_of (sample_train k)) (set [0..<1001])"
    by (rule inj_onI) (simp add: sample_train_def)
  then have d: "distinct (map entry_of ?ops)"
    by (simp only: map_map comp_def distinct_map distinct_upt simp_thms)
  have u0: "[0..<1001] = 0 # [Suc 0..<1001]" by (rule upt_conv_Cons) simp
  have u1: "[Suc 0..<1001] = Suc 0 # [Suc (Suc 0)..<1001]" by (rule upt_conv_Cons) simp
  have h: "hd ?ops = sample_train 0" unfolding u0 by (simp only: list.map list.sel)
  from history_bounded_fifo[of mock_world ?ops] t l d
  have td: "trainingData (performs mock_world ?ops new_bridge) = tl (map ?g ?ops)"
    and nin: "?g (hd ?ops) \<notin> set (trainingData (performs mock_world ?ops new_bridge))"
    by blast+
  have "tl (map ?g ?ops) = ?g (sample_train (Suc 0)) # map ?g (map sample_train [Suc (Suc 0)..<1001])"
    unfolding u0 list.map list.sel unfolding u1 list.map by (rule refl)
  then have "timestamp (hd (trainingData (performs mock_world ?ops new_bridge))) = 1"
    unfolding td by (simp add: sample_train_def)
  moreover have "length (tl (map ?g ?ops)) = 1000"
    by (simp only: length_tl length_map length_upt diff_zero)
  ultimately show ?thesis using nin unfolding h td by blast
qed

subsection \<open>Feedback of recorded interactions\<close>

lemma no_positive_perform:
  assumes "\<forall>d \<in> set (trainingData b). feedback d \<noteq> Positive" "\<not> gives_positive op"
  shows "\<forall>d \<in> set (trainingData (perform W op b)). feedback d \<noteq> Positive"
proof (cases op)
  case (Initialize c l)
  obtain r b1 where e: "initialize W c l b = (r, b1)" by force
  from initialize_frame[OF e] show ?thesis using assms Initialize e by simp
next
  case (DiscoverTools l)
  obtain r b1 where e: "discoverTools l b = (r, b1)" by force
  from discoverTools_frame[OF e] show ?thesis using assms DiscoverTools e by simp
next
  case (GetToolUsage tn)
  obtain r b1 where e: "getToolUsage W tn b = (r, b1)" by force
  from getToolUsage_frame[OF e] show ?thesis using assms GetToolUsage e by simp
next
  case (ExecuteToolCall reply request)
  obtain r b1 where e: "executeToolCall W reply request b = (r, b1)" by force
  from executeToolCall_frame[OF e] show ?thesis using assms ExecuteToolCall e by simp
next
  case (TrainOnInteraction intent call res fb now)
  have "fb \<noteq> Some Positive" using assms(2) TrainOnInteraction by simp
  then have "feedback (the (entry_of op)) \<noteq> Positive"
    using TrainOnInteraction by (cases fb) auto
  then show ?thesis
    using assms(1) TrainOnInteraction
    by (auto simp: trainingData_trainOnInteraction dest!: in_set_dropD)
next
  case (UseTool reply tn params ctx now)
  obtain e where e: "feedback e = Neutral"
    "trainingData (snd (useTool W reply tn params ctx now b)) =
       drop (length (trainingData b) + 1 - 1000) (trainingData b @ [e])"
    using useTool_trainingData[of tn W reply params ctx now b] by blast
  show ?thesis
    using assms(1) UseTool e by (auto dest!: in_set_dropD)
qed

lemma no_positive_performs:
  "\<forall>d \<in> set (trainingData b). feedback d \<noteq> Positive \<Longrightarrow> \<not> list_ex gives_positive ops \<Longrightarrow>
   \<forall>d \<in> set (trainingData (performs W ops b)). feedback d \<noteq> Positive"
proof (induction ops arbitrary: b)
  case Nil
  then show ?case by (simp add: performs_def)
next
  case (Cons op ops)
  have "\<forall>d \<in> set (trainingData (perform W op b)). feedback d \<noteq> Positive"
    using Cons.prems(2) by (intro no_positive_perform[OF Cons.prems(1)]) simp
  from Cons.IH[OF this] Cons.prems(2) show ?case by (simp add: performs_def)
qed

lemma relevantTraining_Nil:
  "\<forall>d \<in> set (trainingData b). feedback d \<noteq> Positive \<Longrightarrow> relevantTraining request b = []"
  by (simp add: relevantTraining_def Let_def filter_empty_conv)

text \<open>
  Claim C10. \<open>useTool\<close> calls \<open>trainOnInteraction\<close> without a feedback argument, so
  the record it appends, the last of the history afterwards, has feedback
  \<open>neutral\<close>. Hence in a history built from a new bridge by operations none of which
  is a \<open>trainOnInteraction\<close> call with positive feedback (by \<open>useTool\<close> calls, for
  one), no record has positive feedback, and the precedents that
  \<open>optimizeToolRequest\<close> selects are none, for every request.
\<close>

theorem useTool_records_neutral:
  "trainingData (snd (useTool W reply tn params ctx now b)) \<noteq> [] \<and>
   feedback (last (trainingData (snd (useTool W reply tn params ctx now b)))) = Neutral \<and>
   toolName (toolCall (last (trainingData (snd (useTool W reply tn params ctx now b))))) = tn \<and>
   (\<not> list_ex gives_positive ops \<longrightarrow>
      (\<forall>d \<in> set (trainingData (performs W ops new_bridge)). feedback d \<noteq> Positive) \<and>
      relevantTraining request (performs W ops new_bridge) = [])"
proof -
  obtain e where e: "feedback e = Neutral" "toolName (toolCall e) = tn"
    "trainingData (snd (useTool W reply tn params ctx now b)) =
       drop (length (trainingData b) + 1 - 1000) (trainingData b @ [e])"
    using useTool_trainingData[of tn W reply params ctx now b] by blast
  let ?k = "length (trainingData b) + 1 - 1000"
  have k: "?k < length (trainingData b @ [e])" by simp
  have ne: "drop ?k (trainingData b @ [e]) \<noteq> []" using k by simp
  have "last (drop ?k (trainingData b @ [e])) = last (trainingData b @ [e])"
    using k by (rule last_drop)
  then have l: "last (drop ?k (trainingData b @ [e])) = e" by simp
  have a: "trainingData (snd (useTool W reply tn params ctx now b)) \<noteq> [] \<and>
   feedback (last (trainingData (snd (useTool W reply tn params ctx now b)))) = Neutral \<and>
   toolName (toolCall (last (trainingData (snd (useTool W reply tn params ctx now b))))) = tn"
    unfolding e(3) using ne l e(1,2) by simp
  have "(\<forall>d \<in> set (trainingData (performs W ops new_bridge)). feedback d \<noteq> Positive) \<and>
      relevantTraining request (performs W ops new_bridge) = []"
    if "\<not> list_ex gives_positive ops"
  proof -
    have "\<forall>d \<in> set (trainingData new_bridge). feedback d \<noteq> Positive"
      by (simp add: new_bridge_def)
    from no_positive_performs[OF this that]
    show ?thesis using relevantTraining_Nil by blast
  qed
  then show ?thesis using a by blast
qed

text \<open>Two \<open>useTool\<close> calls of \<open>echo\<close> on a new bridge, answered by the child.\<close>

theorem useTool_records_neutral_witness:
  "relevantTraining sample_request
     (performs mock_world
        [UseTool echo_reply ''echo'' (JObj []) None 1, UseTool echo_reply ''echo'' (JObj []) None 2]
        new_bridge) = []"
proof -
  have "\<not> list_ex gives_positive
      [UseTool echo_reply ''echo'' (JObj []) None 1, UseTool echo_reply ''echo'' (JObj []) None 2]"
    by simp
  with useTool_records_neutral show ?thesis by blast
qed

subsection \<open>Execution of a tool call\<close>

lemma optimizeToolRequest_known:
  assumes "map_of (toolCache b) (toolName request) = Some tool"
  shows "optimizeToolRequest W request b =
     ((case generateResponse W (length (prompts b))
              (optimize_prompt W request tool (relevantTraining request b)) of
         Inl e \<Rightarrow> request
       | Inr response \<Rightarrow>
           (case json_parse W response of
              None \<Rightarrow> request
            | Some optimizedParams \<Rightarrow> request\<lparr>parameters := optimizedParams\<rparr>)),
      b\<lparr>prompts := prompts b @ [optimize_prompt W request tool (relevantTraining request b)]\<rparr>)"
  using assms
  by (simp add: optimizeToolRequest_def ask_def split: sum.splits option.splits)

lemma executeToolCall_effects:
  "prompts (snd (executeToolCall W reply request b)) =
     prompts (snd (optimizeToolRequest W request b)) \<and>
   toolCalls (snd (executeToolCall W reply request b)) =
     toolCalls (snd (optimizeToolRequest W request b)) @
       [(toolName (fst (optimizeToolRequest W request b)),
         parameters (fst (optimizeToolRequest W request b)))]"
  by (simp add: executeToolCall_def executeToolCall_try_def Let_def split_beta
      split: sum.splits)

lemma slice_last:
  "\<exists>older. xs = older @ drop (length xs - n) xs"
  by (metis append_take_drop_id)

text \<open>
  Claim C7. For a request whose tool is in the tool cache, the precedents are the last
  records, at most 5, of the history records that have the request's tool name and
  positive feedback (the history is in insertion order, so these are the most recent
  ones), and the prompt built from exactly these precedents is the one passed to the
  provider during the execution. When the provider's answer does not parse (or the
  provider throws), the tool is invoked with the request's tool name and the caller's
  own parameters.
\<close>

theorem optimize_precedents_and_fallback:
  assumes "map_of (toolCache b) (toolName request) = Some tool"
  shows "(\<exists>older.
            filter (\<lambda>d. toolName (toolCall d) = toolName request \<and> feedback d = Positive)
              (trainingData b) = older @ relevantTraining request b) \<and>
         length (relevantTraining request b) =
           min 5 (length (filter (\<lambda>d. toolName (toolCall d) = toolName request \<and>
                                     feedback d = Positive) (trainingData b))) \<and>
         prompts (snd (executeToolCall W reply request b)) =
           prompts b @ [optimize_prompt W request tool (relevantTraining request b)] \<and>
         ((case generateResponse W (length (prompts b))
                 (optimize_prompt W request tool (relevantTraining request b)) of
             Inl e \<Rightarrow> True
           | Inr response \<Rightarrow> json_parse W response = None) \<longrightarrow>
          toolCalls (snd (executeToolCall W reply request b)) =
            toolCalls b @ [(toolName request, parameters request)])"
proof -
  let ?M = "filter (\<lambda>d. toolName (toolCall d) = toolName request \<and> feedback d = Positive)
              (trainingData b)"
  have r: "relevantTraining request b = drop (length ?M - 5) ?M"
    by (simp add: relevantTraining_def Let_def conj_commute)
  have a: "\<exists>older. ?M = older @ relevantTraining request b"
    unfolding r by (rule slice_last)
  have l: "length (relevantTraining request b) = min 5 (length ?M)"
    unfolding r by simp
  note o = optimizeToolRequest_known[OF assms, of W]
  note e = executeToolCall_effects[of W reply request b]
  have p: "prompts (snd (executeToolCall W reply request b)) =
           prompts b @ [optimize_prompt W request tool (relevantTraining request b)]"
    using e unfolding o by simp
  have c: "toolCalls (snd (executeToolCall W reply request b)) =
            toolCalls b @ [(toolName request, parameters request)]"
    if "case generateResponse W (length (prompts b))
                 (optimize_prompt W request tool (relevantTraining request b)) of
             Inl e \<Rightarrow> True
           | Inr response \<Rightarrow> json_parse W response = None"
    using e that unfolding o by (auto split: sum.splits)
  show ?thesis using a l p c by blast
qed

text \<open>
  The bridge has recorded seven positive interactions with \<open>echo\<close>, at times 1 to
  7: the precedents are those of times 3 to 7. \<open>JSON.parse\<close> rejects the provider's
  answer, and \<open>echo\<close> is called with the caller's parameters.
\<close>

theorem optimize_precedents_and_fallback_witness:
  "map timestamp (relevantTraining sample_request trained_bridge) = [3, 4, 5, 6, 7] \<and>
   toolCalls (snd (executeToolCall deaf_world echo_reply sample_request trained_bridge)) =
     [(''echo'', JObj [])]"
proof -
  have c: "map_of (toolCache trained_bridge) (toolName sample_request) = Some echo_tool"
    and t: "toolCalls trained_bridge = []"
    by (simp_all add: trained_bridge_def performs_def sample_train_def trainOnInteraction_def
        new_bridge_def sample_request_def)
  have r: "map timestamp (relevantTraining sample_request trained_bridge) = [3, 4, 5, 6, 7]"
    by (simp add: trained_bridge_def performs_def sample_train_def trainOnInteraction_def
        new_bridge_def sample_request_def relevantTraining_def)
  have f: "case generateResponse deaf_world (length (prompts trained_bridge))
                 (optimize_prompt deaf_world sample_request echo_tool
                    (relevantTraining sample_request trained_bridge)) of
             Inl e \<Rightarrow> True
           | Inr response \<Rightarrow> json_parse deaf_world response = None"
    by (simp add: deaf_world_def mock_world_def)
  from optimize_precedents_and_fallback[OF c, of deaf_world echo_reply] f
  have "toolCalls (snd (executeToolCall deaf_world echo_reply sample_request trained_bridge)) =
            toolCalls trained_bridge @ [(toolName sample_request, parameters sample_request)]"
    by blast
  then show ?thesis using r t by (simp add: sample_request_def)
qed

lemma callTool_return_Inl: "callTool_return out = Inl e \<Longrightarrow> \<exists>m. e = Error m"
proof (cases out)
  case (Rejected m)
  assume "callTool_return out = Inl e"
  then show ?thesis using Rejected by (auto simp: callTool_return_def)
next
  case (Resolved v)
  assume a: "callTool_return out = Inl e"
  have "\<And>k x. get_prop v k = Inl x \<Longrightarrow> \<exists>m. x = Error m" by (cases v) auto
  then show ?thesis using a Resolved
    by (auto simp: callTool_return_def split: sum.splits)
qed

text \<open>
  Claim C5. \<open>executeToolCall\<close> returns a result record for every request, bridge
  state and answer: whatever the \<open>try\<close> block throws is turned into a record by the
  \<open>catch\<close>. One \<open>callTool\<close> invocation is made. When it fails, the record has
  \<open>success = false\<close>, no result, the raised error's message as \<open>error\<close> and the
  three fixed suggestions; when it returns, the record has the returned result, no
  error, \<open>success\<close> according to the result's \<open>isError\<close>, and the suggestions
  drawn from the tool cache. So exactly one of \<open>result\<close> and \<open>error\<close> is present.
\<close>

theorem executeToolCall_never_raises:
  "toolCalls (snd (executeToolCall W reply request b)) \<noteq> [] \<and>
   (case callTool_return
           (reply (fst (last (toolCalls (snd (executeToolCall W reply request b)))))
                  (snd (last (toolCalls (snd (executeToolCall W reply request b)))))) of
      Inl e \<Rightarrow>
        \<exists>m. e = Error m \<and>
          fst (executeToolCall W reply request b) =
            \<lparr>success = False, result = None, error = Some m,
             suggestions = generateErrorSuggestions request\<rparr>
    | Inr res \<Rightarrow>
        fst (executeToolCall W reply request b) =
          \<lparr>success = \<not> truthy (isError res), result = Some res, error = None,
           suggestions = generateSuggestions request (snd (executeToolCall W reply request b))\<rparr>) \<and>
   length (generateErrorSuggestions request) = 3 \<and>
   (result (fst (executeToolCall W reply request b)) = None) =
     (error (fst (executeToolCall W reply request b)) \<noteq> None)"
proof -
  obtain opt b1 where o: "optimizeToolRequest W request b = (opt, b1)" by force
  let ?b2 = "b1\<lparr>toolCalls := toolCalls b1 @ [(toolName opt, parameters opt)]\<rparr>"
  let ?c = "callTool_return (reply (toolName opt) (parameters opt))"
  show ?thesis
  proof (cases ?c)
    case (Inl e)
    then obtain m where m: "e = Error m" using callTool_return_Inl by blast
    have "executeToolCall W reply request b =
        (\<lparr>success = False, result = None, error = Some m,
          suggestions = generateErrorSuggestions request\<rparr>, ?b2)"
      using Inl m by (simp add: executeToolCall_def executeToolCall_try_def o Let_def)
    then show ?thesis using Inl m by (simp add: generateErrorSuggestions_def)
  next
    case (Inr res)
    have "executeToolCall W reply request b =
        (\<lparr>success = \<not> truthy (isError res), result = Some res, error = None,
          suggestions = generateSuggestions request ?b2\<rparr>, ?b2)"
      using Inr
      by (simp add: executeToolCall_def executeToolCall_try_def o enhanceToolResult_def Let_def)
    then show ?thesis using Inr by (simp add: generateErrorSuggestions_def)
  qed
qed

text \<open>
  The child answers a call of an unknown tool with the RPC error \<open>-32601\<close>,
  \<open>Unknown tool\<close>: the request is rejected with that message, and the execution
  returns a failure record with it.
\<close>

theorem executeToolCall_never_raises_witness:
  "response_outcome (error_response 2 (- 32601) ''Unknown tool'') = Inr (Rejected ''Unknown tool'') \<and>
   fst (executeToolCall mock_world (\<lambda>tn args. Rejected ''Unknown tool'')
          \<lparr>toolName = ''missing_tool'', parameters = JObj [], requestContext = None,
           userIntent = None\<rparr> new_bridge) =
     \<lparr>success = False, result = None, error = Some ''Unknown tool'',
      suggestions =
        [''Check if the parameters match the expected schema for '' @ quote ''missing_tool'',
         ''Verify that all required fields are provided'',
         ''Try using the how_tool command to get usage examples'']\<rparr>"
proof -
  let ?reply = "\<lambda>tn args. Rejected ''Unknown tool''"
  let ?request = "\<lparr>toolName = ''missing_tool'', parameters = JObj [], requestContext = None,
           userIntent = None\<rparr>"
  have c: "callTool_return (?reply tn args) = Inl (Error ''Unknown tool'')" for tn :: string and args
    by (simp add: callTool_return_def)
  from executeToolCall_never_raises[of mock_world ?reply ?request new_bridge]
  have "\<exists>m. Error ''Unknown tool'' = Error m \<and>
          fst (executeToolCall mock_world ?reply ?request new_bridge) =
            \<lparr>success = False, result = None, error = Some m,
             suggestions = generateErrorSuggestions ?request\<rparr>"
    unfolding c by simp
  then show ?thesis
    by (auto simp: generateErrorSuggestions_def response_outcome_def error_response_def js_or_def)
qed

subsection \<open>Usage information\<close>

lemma getToolUsage_unknown:
  "usageExamples b tn = None \<Longrightarrow> map_of (toolCache b) tn = None \<Longrightarrow>
   getToolUsage W tn b = (Inl (not_found tn), b)"
  by (simp add: getToolUsage_def not_found_def)

lemma getToolUsage_returns:
  assumes "getToolUsage W tn b = (Inr u, b1)"
  shows "(usageExamples b tn = Some u \<or> map_of (toolCache b) tn \<noteq> None) \<and>
         usageExamples b1 tn = Some u"
  using assms
  by (auto simp: getToolUsage_def split: option.splits prod.splits sum.splits)

lemma getToolUsage_memoized:
  "usageExamples b tn = Some u \<Longrightarrow> getToolUsage W tn b = (Inr u, b)"
  by (simp add: getToolUsage_def)

lemma loop_keys:
  "generateToolUsageExamples_loop W entries b = (r, b1) \<Longrightarrow> usageExamples b1 k \<noteq> None \<Longrightarrow>
   usageExamples b k \<noteq> None \<or> k \<in> fst ` set entries"
proof (induction W entries b arbitrary: r b1 rule: generateToolUsageExamples_loop.induct)
  case (1 W b)
  then show ?case by simp
next
  case (2 W tn tool rest b)
  show ?case
  proof (cases "usageExamples b tn \<noteq> None")
    case True
    then show ?thesis using 2(1)[OF True] 2(3,4) by auto
  next
    case False
    obtain r' b' where g: "generateToolUsageInfo W tool b = (r', b')" by force
    note f = generateToolUsageInfo_frame[OF g]
    show ?thesis
    proof (cases r')
      case (Inl e)
      then show ?thesis using False g f 2(3,4) by auto
    next
      case (Inr u)
      have l: "generateToolUsageExamples_loop W rest
              (b'\<lparr>usageExamples := (usageExamples b')(tn \<mapsto> u)\<rparr>) = (r, b1)"
        using 2(3) False g Inr by simp
      from 2(2)[OF False g[symmetric] Inr l 2(4)] f show ?thesis
        by (auto split: if_splits)
    qed
  qed
qed

lemma consistent_first_initialize:
  assumes "usageExamples b = Map.empty"
  shows "consistent (snd (initialize W connecting listed b))"
proof (cases connecting)
  case (Some e)
  then show ?thesis using assms by (simp add: initialize_def consistent_def)
next
  case None
  show ?thesis
  proof (cases listed)
    case (Inl e)
    then show ?thesis using None assms
      by (simp add: initialize_def cacheAvailableTools_def consistent_def)
  next
    case (Inr ts)
    let ?b1 = "b\<lparr>toolCache := fold (\<lambda>tool m. map_set (name tool) tool m) ts []\<rparr>"
    obtain r b2 where l: "generateToolUsageExamples_loop W (toolCache ?b1) ?b1 = (r, b2)" by force
    have tc: "toolCache b2 = toolCache ?b1" using loop_frame[OF l] by simp
    have "map_of (toolCache b2) k \<noteq> None" if "usageExamples b2 k \<noteq> None" for k
    proof -
      from loop_keys[OF l that] have "k \<in> fst ` set (toolCache ?b1)" using assms by simp
      then show ?thesis unfolding tc by (simp add: map_of_eq_None_iff)
    qed
    then have "consistent b2" by (simp add: consistent_def)
    then show ?thesis
      using None Inr l
      by (simp add: initialize_def cacheAvailableTools_def generateToolUsageExamples_def)
  qed
qed

lemma consistent_perform:
  assumes "consistent b" "\<not> is_initialize op"
  shows "consistent (perform W op b)"
proof (cases op)
  case (Initialize c l)
  then show ?thesis using assms(2) by simp
next
  case (DiscoverTools l)
  show ?thesis
  proof (cases "toolCache b = []")
    case True
    then have "usageExamples b = Map.empty" using assms(1) by (auto simp: consistent_def)
    then show ?thesis using DiscoverTools True
      by (auto simp: discoverTools_def cacheAvailableTools_def consistent_def Let_def
          split: sum.splits)
  next
    case False
    then show ?thesis using DiscoverTools assms(1) by (simp add: discoverTools_def Let_def)
  qed
next
  case (GetToolUsage tn)
  obtain r b1 where e: "getToolUsage W tn b = (r, b1)" by force
  have tc: "toolCache b1 = toolCache b" using getToolUsage_frame[OF e] by simp
  have "usageExamples b k \<noteq> None \<or> (k = tn \<and> map_of (toolCache b) tn \<noteq> None)"
    if "usageExamples b1 k \<noteq> None" for k
    using e that
    by (auto simp: getToolUsage_def split: option.splits prod.splits sum.splits if_splits
        dest!: generateToolUsageInfo_frame)
  then have "consistent b1" using assms(1) unfolding consistent_def tc by blast
  then show ?thesis using GetToolUsage e by simp
next
  case (ExecuteToolCall reply request)
  obtain r b1 where e: "executeToolCall W reply request b = (r, b1)" by force
  from executeToolCall_frame[OF e] show ?thesis
    using assms(1) ExecuteToolCall e by (simp add: consistent_def)
next
  case (TrainOnInteraction intent call res fb now)
  then show ?thesis using assms(1) by (simp add: consistent_def trainOnInteraction_def Let_def)
next
  case (UseTool reply tn params ctx now)
  obtain r b1 where e: "executeToolCall W reply
      \<lparr>toolName = tn, parameters = params, requestContext = ctx, userIntent = ctx\<rparr> b = (r, b1)"
    by force
  from executeToolCall_frame[OF e] show ?thesis
    using assms(1) UseTool e
    by (simp add: consistent_def useTool_def trainOnInteraction_def Let_def)
qed

lemma consistent_performs:
  "consistent b \<Longrightarrow> \<not> list_ex is_initialize ops \<Longrightarrow> consistent (performs W ops b)"
proof (induction ops arbitrary: b)
  case Nil
  then show ?case by (simp add: performs_def)
next
  case (Cons op ops)
  have "consistent (perform W op b)"
    using Cons.prems(2) by (intro consistent_perform[OF Cons.prems(1)]) simp
  from Cons.IH[OF this] Cons.prems(2) show ?case by (simp add: performs_def)
qed

lemma consistent_reachable:
  assumes "\<not> list_ex is_initialize (tl ops)"
  shows "consistent (performs W ops new_bridge)"
proof (cases ops)
  case Nil
  then show ?thesis by (simp add: performs_def consistent_def new_bridge_def)
next
  case (Cons op rest)
  have n: "consistent new_bridge" "usageExamples new_bridge = Map.empty"
    by (simp_all add: consistent_def new_bridge_def)
  have "consistent (perform W op new_bridge)"
  proof (cases "is_initialize op")
    case True
    then obtain c l where "op = Initialize c l" by (cases op) auto
    then show ?thesis using consistent_first_initialize[OF n(2)] by simp
  next
    case False
    then show ?thesis using consistent_perform[OF n(1)] by simp
  qed
  from consistent_performs[OF this, of rest W] assms Cons show ?thesis
    by (simp add: performs_def)
qed

text \<open>
  Claim C6, as amended. For a name that is in neither cache, \<open>getToolUsage\<close> throws
  \<open>Tool '<name>' not found\<close> and changes nothing. It returns usage information only
  for a name that is memoized in the usage cache or is in the tool cache; what it
  returns is then memoized, and a second call returns the same value without a call of
  the provider (the bridge, with its record of prompts, is unchanged). In every state
  reached from a new bridge by operations of which only the first may be
  \<open>initialize\<close>, every memoized name is in the tool cache, so there a name absent from
  the tool cache gets the error. (The sources throw a plain \<open>Error\<close> with this message.)
\<close>

theorem usage_lookup:
  "(usageExamples b tn = None \<and> map_of (toolCache b) tn = None \<longrightarrow>
      getToolUsage W tn b = (Inl (not_found tn), b)) \<and>
   (getToolUsage W tn b = (Inr u, b1) \<longrightarrow>
      (usageExamples b tn = Some u \<or> map_of (toolCache b) tn \<noteq> None) \<and>
      getToolUsage W tn b1 = (Inr u, b1)) \<and>
   (\<not> list_ex is_initialize (tl ops) \<and>
    map_of (toolCache (performs W ops new_bridge)) tn = None \<longrightarrow>
      getToolUsage W tn (performs W ops new_bridge) =
        (Inl (not_found tn), performs W ops new_bridge))"
proof -
  have 1: "getToolUsage W tn b = (Inl (not_found tn), b)"
    if "usageExamples b tn = None \<and> map_of (toolCache b) tn = None"
    using that getToolUsage_unknown by simp
  have 2: "(usageExamples b tn = Some u \<or> map_of (toolCache b) tn \<noteq> None) \<and>
      getToolUsage W tn b1 = (Inr u, b1)"
    if "getToolUsage W tn b = (Inr u, b1)"
    using getToolUsage_returns[OF that] getToolUsage_memoized by simp
  have 3: "getToolUsage W tn (performs W ops new_bridge) =
        (Inl (not_found tn), performs W ops new_bridge)"
    if "\<not> list_ex is_initialize (tl ops) \<and>
        map_of (toolCache (performs W ops new_bridge)) tn = None"
  proof -
    have "consistent (performs W ops new_bridge)" using that consistent_reachable by simp
    then have "usageExamples (performs W ops new_bridge) tn = None"
      using that by (auto simp: consistent_def)
    then show ?thesis using that getToolUsage_unknown by simp
  qed
  show ?thesis using 1 2 3 by blast
qed

text \<open>After one \<open>initialize\<close> that found the tool \<open>echo\<close>, the usage of \<open>missing\<close> is asked for.\<close>

theorem usage_lookup_witness:
  "fst (getToolUsage mock_world ''missing''
         (performs mock_world [Initialize None (Inr [echo_tool])] new_bridge)) =
     Inl (Error (''Tool '' @ quote ''missing'' @ '' not found''))"
proof -
  let ?ops = "[Initialize None (Inr [echo_tool])]"
  have a: "\<not> list_ex is_initialize (tl ?ops)" by simp
  have tc: "toolCache (performs mock_world ?ops new_bridge) = [(''echo'', echo_tool)]"
  proof -
    obtain r b1 where i: "initialize mock_world None (Inr [echo_tool]) new_bridge = (r, b1)"
      by force
    let ?b1 = "new_bridge\<lparr>toolCache := [(''echo'', echo_tool)]\<rparr>"
    obtain r' where l: "generateToolUsageExamples_loop mock_world (toolCache ?b1) ?b1 = (r', b1)"
      using i by (simp add: initialize_def cacheAvailableTools_def generateToolUsageExamples_def
          echo_tool_def)
    from loop_frame[OF l] show ?thesis using i by (simp add: performs_def)
  qed
  have b: "map_of (toolCache (performs mock_world ?ops new_bridge)) ''missing'' = None"
    unfolding tc by simp
  from usage_lookup[where W = mock_world and ops = ?ops and tn = "''missing''"
      and b = new_bridge and ?b1.0 = new_bridge and u = "fallback_usage echo_tool"] a b
  show ?thesis by (simp add: not_found_def)
qed

text \<open>
  Claim C6 as stated fails. \<open>initialize\<close> finds the tool \<open>echo\<close> and memoizes its
  usage; a second \<open>initialize\<close> finds no tool. Then \<open>echo\<close> is not in the tool
  cache, and \<open>getToolUsage\<close> still returns the memoized usage information.
\<close>

theorem stale_usage_counterexample:
  "map_of (toolCache
      (performs mock_world [Initialize None (Inr [echo_tool]), Initialize None (Inr [])]
         new_bridge)) ''echo'' = None \<and>
   fst (getToolUsage mock_world ''echo''
      (performs mock_world [Initialize None (Inr [echo_tool]), Initialize None (Inr [])]
         new_bridge)) =
     Inr \<lparr>name = ''echo'', description = ''Echoes the message'', inputSchema = JObj [],
          examples = JArr [], relatedTools = JArr [], category = JStr ''Utility''\<rparr>"
proof -
  let ?u = "\<lparr>name = ''echo'', description = ''Echoes the message'', inputSchema = JObj [],
          examples = JArr [], relatedTools = JArr [], category = JStr ''Utility''\<rparr>"
  have u: "usage_of_response mock_world echo_tool mock_text = ?u"
    by (simp add: usage_of_response_def mock_world_def echo_tool_def js_or_def)
  have 1: "initialize mock_world None (Inr [echo_tool]) new_bridge =
      (None, new_bridge\<lparr>toolCache := [(''echo'', echo_tool)],
                        usageExamples := [''echo'' \<mapsto> ?u],
                        prompts := [usage_prompt mock_world echo_tool]\<rparr>)"
    using u
    by (simp add: initialize_def cacheAvailableTools_def generateToolUsageExamples_def
        generateToolUsageInfo_def ask_def new_bridge_def)
       (simp add: echo_tool_def mock_world_def)
  have 2: "initialize mock_world None (Inr []) b = (None, b\<lparr>toolCache := []\<rparr>)" for b
    by (simp add: initialize_def cacheAvailableTools_def generateToolUsageExamples_def)
  show ?thesis
    by (simp add: performs_def 1 2 getToolUsage_def)
qed

subsection \<open>Filtering of discovered tools\<close>












end
